theory Spec2Isabelle
  imports Main "HOL-Library.List_Lexorder" "HOL-Library.Char_ord" "HOL-Library.Multiset"
    "HOL-Library.Sublist"
begin

section \<open>Strings\<close>

text \<open>
  The file \<^verbatim>\<open>glow.js\<close> holds two versions of the viewer, one after the other. The model
  follows the second one (from line 236 on), which has the recursive discovery of the
  documents and the search.

  A JavaScript string is modelled as a \<^typ>\<open>string\<close>, one \<^typ>\<open>char\<close> for each code unit;
  the model covers text whose code units lie below 256. The operations below are the
  string methods that \<^verbatim>\<open>glow.js\<close> calls.
\<close>

abbreviation NL :: char where "NL \<equiv> CHR 0x0A"
abbreviation CR :: char where "CR \<equiv> CHR 0x0D"
abbreviation ESC :: char where "ESC \<equiv> CHR 0x1B"

text \<open>
  \<^verbatim>\<open>toLowerCase\<close> on code units below 256: the letters A to Z and the capital letters of
  Latin-1 (0xC0 to 0xDE without the multiplication sign 0xD7) move 32 places up.
\<close>

definition upper_case :: string where
  "upper_case = ''ABCDEFGHIJKLMNOPQRSTUVWXYZ'' @
     [CHR 0xC0, CHR 0xC1, CHR 0xC2, CHR 0xC3, CHR 0xC4, CHR 0xC5, CHR 0xC6, CHR 0xC7,
      CHR 0xC8, CHR 0xC9, CHR 0xCA, CHR 0xCB, CHR 0xCC, CHR 0xCD, CHR 0xCE, CHR 0xCF,
      CHR 0xD0, CHR 0xD1, CHR 0xD2, CHR 0xD3, CHR 0xD4, CHR 0xD5, CHR 0xD6, CHR 0xD8,
      CHR 0xD9, CHR 0xDA, CHR 0xDB, CHR 0xDC, CHR 0xDD, CHR 0xDE]"

definition lower_case :: string where
  "lower_case = ''abcdefghijklmnopqrstuvwxyz'' @
     [CHR 0xE0, CHR 0xE1, CHR 0xE2, CHR 0xE3, CHR 0xE4, CHR 0xE5, CHR 0xE6, CHR 0xE7,
      CHR 0xE8, CHR 0xE9, CHR 0xEA, CHR 0xEB, CHR 0xEC, CHR 0xED, CHR 0xEE, CHR 0xEF,
      CHR 0xF0, CHR 0xF1, CHR 0xF2, CHR 0xF3, CHR 0xF4, CHR 0xF5, CHR 0xF6, CHR 0xF8,
      CHR 0xF9, CHR 0xFA, CHR 0xFB, CHR 0xFC, CHR 0xFD, CHR 0xFE]"

definition lower_char :: "char \<Rightarrow> char" where
  "lower_char c = (case map_of (zip upper_case lower_case) c of None \<Rightarrow> c | Some l \<Rightarrow> l)"

definition toLowerCase :: "string \<Rightarrow> string" where
  "toLowerCase s = map lower_char s"

definition startsWith :: "string \<Rightarrow> string \<Rightarrow> bool" where
  "startsWith s p = (take (length p) s = p)"

definition endsWith :: "string \<Rightarrow> string \<Rightarrow> bool" where
  "endsWith s p = (length p \<le> length s \<and> drop (length s - length p) s = p)"

fun str_includes :: "string \<Rightarrow> string \<Rightarrow> bool" where
  "str_includes [] q = (q = [])"
| "str_includes (c # cs) q = (startsWith (c # cs) q \<or> str_includes cs q)"

text \<open>\<^verbatim>\<open>s.split('\n')\<close>: the pieces between line feeds, at least one piece.\<close>

fun split_lines :: "string \<Rightarrow> string list" where
  "split_lines [] = [[]]"
| "split_lines (c # cs) =
     (if c = NL then [] # split_lines cs
      else (case split_lines cs of
              [] \<Rightarrow> [[c]]
            | l # ls \<Rightarrow> (c # l) # ls))"

text \<open>\<^verbatim>\<open>lines.join('\n')\<close>.\<close>

fun join_lines :: "string list \<Rightarrow> string" where
  "join_lines [] = []"
| "join_lines [l] = l"
| "join_lines (l # ls) = l @ NL # join_lines ls"

definition is_space :: "char \<Rightarrow> bool" where
  "is_space c = ((of_char c :: nat) \<in> {9, 10, 11, 12, 13, 32, 160})"

definition trim :: "string \<Rightarrow> string" where
  "trim s = rev (dropWhile is_space (rev (dropWhile is_space s)))"

text \<open>The decimal digits of a number, as a template literal writes it.\<close>

fun decimal :: "nat \<Rightarrow> string" where
  "decimal n =
     (if n < 10 then [''0123456789'' ! n]
      else decimal (n div 10) @ [''0123456789'' ! (n mod 10)])"

declare decimal.simps [simp del]

section \<open>Services of the host\<close>

text \<open>
  The functions of Node's \<^verbatim>\<open>path\<close> and \<^verbatim>\<open>os\<close> modules, the \<^verbatim>\<open>marked\<close> conversion with its
  terminal renderer, the process environment and the colour detection that \<^verbatim>\<open>chalk\<close>
  runs when it is loaded are not part of \<^verbatim>\<open>glow.js\<close>. They are parameters of the model.
\<close>

record host =
  path_join :: "string \<Rightarrow> string \<Rightarrow> string"
  path_basename :: "string \<Rightarrow> string"
  path_relative :: "string \<Rightarrow> string \<Rightarrow> string"
  os_tmpdir :: string
  marked_parse :: "string \<Rightarrow> string"
  environ :: "string \<rightharpoonup> string"
  detect_level :: "(string \<rightharpoonup> string) \<Rightarrow> nat"

section \<open>Search in files\<close>

record search_result =
  rfile :: string
  basename :: string
  relPath :: string
  line :: nat
  preview :: string

text \<open>
  The inner loop of \<^verbatim>\<open>searchInFiles\<close>: \<open>i\<close> is the index of the first line of \<open>ls\<close>;
  the result is the index and the text of the first line that contains the query.
\<close>

fun first_match :: "string \<Rightarrow> string list \<Rightarrow> nat \<Rightarrow> (nat \<times> string) option" where
  "first_match q [] i = None"
| "first_match q (l # ls) i =
     (if str_includes (toLowerCase l) q then Some (i, l) else first_match q ls (i + 1))"

text \<open>
  \<open>rd\<close> is \<^verbatim>\<open>fs.readFileSync(file, 'utf8')\<close>: \<open>None\<close> when the call throws. The
  \<^verbatim>\<open>try\<close>/\<^verbatim>\<open>catch\<close> around the loop body skips such a file.
\<close>

fun searchInFiles :: "host \<Rightarrow> (string \<rightharpoonup> string) \<Rightarrow> string list \<Rightarrow> string \<Rightarrow> search_result list" where
  "searchInFiles H rd [] query = []"
| "searchInFiles H rd (f # fs) query =
     (case rd f of
        None \<Rightarrow> searchInFiles H rd fs query
      | Some content \<Rightarrow>
          (case first_match (toLowerCase query) (split_lines content) 0 of
             None \<Rightarrow> searchInFiles H rd fs query
           | Some (i, l) \<Rightarrow>
               \<lparr>rfile = f, basename = path_basename H f, relPath = path_relative H ''.'' f,
                line = i + 1, preview = take 80 (trim l)\<rparr> # searchInFiles H rd fs query))"

section \<open>Styling\<close>

text \<open>
  \<^verbatim>\<open>chalk\<close> is a dependency, not a file of the repository. Its style application is
  modelled after version 4 of the library, the last one that \<^verbatim>\<open>require\<close> can load:
  a style is a chain of pairs of an opening and a closing code, outermost first; applied
  to a text at level 0, or to the empty text, it returns the text as it is; otherwise it
  re-opens the style after every closing code already in the text, closes and re-opens
  it around every line break, and wraps the text in the codes.
\<close>

type_synonym styler = "(string \<times> string) list"

definition openAll :: "styler \<Rightarrow> string" where
  "openAll st = concat (map fst st)"

definition closeAll :: "styler \<Rightarrow> string" where
  "closeAll st = concat (rev (map snd st))"

fun stringReplaceAll :: "string \<Rightarrow> string \<Rightarrow> string \<Rightarrow> string" where
  "stringReplaceAll [] sub rep = []"
| "stringReplaceAll (c # cs) sub rep =
     (if sub \<noteq> [] \<and> startsWith (c # cs) sub
      then sub @ rep @ stringReplaceAll (drop (length sub - 1) cs) sub rep
      else c # stringReplaceAll cs sub rep)"

fun encaseCRLF :: "string \<Rightarrow> string \<Rightarrow> string \<Rightarrow> string" where
  "encaseCRLF [] pre post = []"
| "encaseCRLF [c] pre post = (if c = NL then pre @ [NL] @ post else [c])"
| "encaseCRLF (c # d # cs) pre post =
     (if c = NL then pre @ [NL] @ post @ encaseCRLF (d # cs) pre post
      else if c = CR \<and> d = NL then pre @ [CR, NL] @ post @ encaseCRLF cs pre post
      else c # encaseCRLF (d # cs) pre post)"

definition applyStyle :: "nat \<Rightarrow> styler \<Rightarrow> string \<Rightarrow> string" where
  "applyStyle level st s =
     (if level \<le> 0 \<or> s = [] then s
      else if st = [] then s
      else
        let s1 = (if ESC \<in> set s
                  then foldl (\<lambda>str (opn, cls). stringReplaceAll str cls opn) s (rev st)
                  else s);
            s2 = (if NL \<in> set s1 then encaseCRLF s1 (closeAll st) (openAll st) else s1)
        in openAll st @ s2 @ closeAll st)"

text \<open>The styles that the program uses, with the codes of level 3 (16 million colours).\<close>

definition bold :: styler where
  "bold = [(ESC # ''[1m'', ESC # ''[22m'')]"

definition italic :: styler where
  "italic = [(ESC # ''[3m'', ESC # ''[23m'')]"

definition bgHex_E0E0E0_hex_000000 :: styler where
  "bgHex_E0E0E0_hex_000000 =
     [(ESC # ''[48;2;224;224;224m'', ESC # ''[49m''), (ESC # ''[38;2;0;0;0m'', ESC # ''[39m'')]"

definition inverse_black :: styler where
  "inverse_black = [(ESC # ''[7m'', ESC # ''[27m''), (ESC # ''[30m'', ESC # ''[39m'')]"

text \<open>
  Lines 242 and 245: loading the library sets the level it detects from the environment,
  and the assignment \<^verbatim>\<open>chalk.level = 3\<close> replaces it.
\<close>

definition chalk_level :: "host \<Rightarrow> nat" where
  "chalk_level H = (let level = detect_level H (environ H); level = 3 in level)"

section \<open>Rendering\<close>

text \<open>
  \<^verbatim>\<open>result.replace(/\n{3,}/g, '\n\n')\<close>: scanning from the left, a maximal run of three or
  more line feeds is replaced by two; any other character is copied.
\<close>

function replace_newline_runs :: "string \<Rightarrow> string" where
  "replace_newline_runs [] = []"
| "replace_newline_runs (c # cs) =
     (if 3 \<le> length (takeWhile (\<lambda>x. x = NL) (c # cs))
      then [NL, NL] @ replace_newline_runs (dropWhile (\<lambda>x. x = NL) (c # cs))
      else c # replace_newline_runs cs)"
  by pat_completeness auto
termination
  by (relation "measure length") (auto simp: length_dropWhile_le less_Suc_eq_le split: if_splits)

text \<open>
  One attempt of the pattern \<open>d([^c]+)d\<close> at the head of a text, where the delimiter
  \<open>d\<close> begins with \<open>c\<close>: the captured text and the text after the match. The greedy
  \<open>[^c]+\<close> stops at the first \<open>c\<close>, and giving characters back cannot help, since the
  closing delimiter would then have to begin with a character other than \<open>c\<close>.
\<close>

definition match_span :: "string \<Rightarrow> char \<Rightarrow> string \<Rightarrow> (string \<times> string) option" where
  "match_span d c s =
     (if startsWith s d then
        (let r = drop (length d) s;
             t = takeWhile (\<lambda>x. x \<noteq> c) r;
             r' = dropWhile (\<lambda>x. x \<noteq> c) r
         in if t \<noteq> [] \<and> startsWith r' d then Some (t, drop (length d) r') else None)
      else None)"

text \<open>
  \<^verbatim>\<open>result.replace(/d([^c]+)d/g, (_, text) => f(text))\<close>: a match is replaced by the
  styled capture and the scan goes on after it; where the pattern does not match, the
  character is copied and the scan goes on at the next one.
\<close>

function replace_spans :: "string \<Rightarrow> char \<Rightarrow> (string \<Rightarrow> string) \<Rightarrow> string \<Rightarrow> string" where
  "replace_spans d c f [] = []"
| "replace_spans d c f (x # xs) =
     (case match_span d c (x # xs) of
        Some (t, rest) \<Rightarrow> f t @ replace_spans d c f rest
      | None \<Rightarrow> x # replace_spans d c f xs)"
  by pat_completeness auto
termination
proof (relation "measure (\<lambda>(d, c, f, s). length s)", goal_cases)
  case 1
  show ?case by simp
next
  case 2
  show ?case by simp
next
  case (3 d c f x xs p t rest)
  let ?r = "drop (length d) (x # xs)"
  from 3 have m: "match_span d c (x # xs) = Some (t, rest)" by simp
  from m have t: "takeWhile (\<lambda>y. y \<noteq> c) ?r \<noteq> []"
    and rest: "rest = drop (length d) (dropWhile (\<lambda>y. y \<noteq> c) ?r)"
    by (auto simp: match_span_def Let_def split: if_splits)
  from t have "?r \<noteq> []" by auto
  then have "length (dropWhile (\<lambda>y. y \<noteq> c) ?r) < length ?r"
    using t by (cases ?r) (auto simp: less_Suc_eq_le length_dropWhile_le split: if_splits)
  then have "length rest < length (x # xs)" using rest by simp
  then show ?case by simp
qed

definition render :: "host \<Rightarrow> string \<Rightarrow> string" where
  "render H content =
     (let result = marked_parse H content;
          result = replace_newline_runs result;
          result = replace_spans ''**'' (CHR ''*'') (applyStyle (chalk_level H) bold) result;
          result = replace_spans ''*'' (CHR ''*'') (applyStyle (chalk_level H) italic) result;
          result = replace_spans ''`'' (CHR ''`'')
                     (applyStyle (chalk_level H) bgHex_E0E0E0_hex_000000) result;
          result = join_lines (map (\<lambda>line. ''  '' @ line) (split_lines result))
      in result)"

section \<open>Discovery of the documents\<close>

text \<open>
  What \<^verbatim>\<open>fs.readdirSync(dir, { withFileTypes: true })\<close> finds below a directory: regular
  files, directories with their entries, directories whose listing fails, and entries
  that are neither a file nor a directory (links, sockets).
\<close>

datatype dirent = File string | Directory string "dirent list" | Locked string | Other string

datatype exn = ReaddirError string | ReadError string | WriteError string | UnlinkError string
  | SpawnError | TypeError

fun isDirectory :: "dirent \<Rightarrow> bool" where
  "isDirectory (Directory n es) = True"
| "isDirectory (Locked n) = True"
| "isDirectory e = False"

fun isFile :: "dirent \<Rightarrow> bool" where
  "isFile (File n) = True"
| "isFile e = False"

fun name :: "dirent \<Rightarrow> string" where
  "name (File n) = n"
| "name (Directory n es) = n"
| "name (Locked n) = n"
| "name (Other n) = n"

text \<open>
  \<^verbatim>\<open>findMarkdownFiles(dir)\<close>, where \<open>node\<close> is what the file system holds at \<open>dir\<close>;
  \<open>walk\<close> is its \<^verbatim>\<open>for\<close> loop over the entries still to visit, and returns what the loop
  pushes. An exception of \<^verbatim>\<open>readdirSync\<close> is not caught and ends every enclosing call.
\<close>

fun findMarkdownFiles :: "host \<Rightarrow> string \<Rightarrow> dirent \<Rightarrow> exn + string list"
  and walk :: "host \<Rightarrow> string \<Rightarrow> dirent list \<Rightarrow> exn + string list" where
  "findMarkdownFiles H dir (Directory n entries) =
     (case walk H dir entries of
        Inl e \<Rightarrow> Inl e
      | Inr results \<Rightarrow> Inr (sort results))"
| "findMarkdownFiles H dir (File n) = Inl (ReaddirError dir)"
| "findMarkdownFiles H dir (Locked n) = Inl (ReaddirError dir)"
| "findMarkdownFiles H dir (Other n) = Inl (ReaddirError dir)"
| "walk H dir [] = Inr []"
| "walk H dir (entry # entries) =
     (let fullPath = path_join H dir (name entry)
      in if isDirectory entry \<and> \<not> startsWith (name entry) ''.'' \<and> name entry \<noteq> ''node_modules''
         then (case findMarkdownFiles H fullPath entry of
                 Inl e \<Rightarrow> Inl e
               | Inr found \<Rightarrow>
                   (case walk H dir entries of
                      Inl e \<Rightarrow> Inl e
                    | Inr results \<Rightarrow> Inr (found @ results)))
         else if isFile entry \<and> (endsWith (name entry) ''.md'' \<or> endsWith (name entry) ''.markdown'')
         then (case walk H dir entries of
                 Inl e \<Rightarrow> Inl e
               | Inr results \<Rightarrow> Inr (fullPath # results))
         else walk H dir entries)"

section \<open>Discovery, as the specification words it\<close>

text \<open>
  The specification of the document store, to compare \<^verbatim>\<open>findMarkdownFiles\<close> with: of all
  files anywhere below the directory, each given by the names on the way to it, those
  whose name ends in \<^verbatim>\<open>.md\<close> or \<^verbatim>\<open>.markdown\<close> and that lie in no directory whose name
  starts with a dot or is \<^verbatim>\<open>node_modules\<close>; their full paths, sorted. The specification
  speaks of files and makes no exception for links: every entry that is not a directory
  counts.
\<close>

definition pruned :: "string \<Rightarrow> bool" where
  "pruned n = (startsWith n ''.'' \<or> n = ''node_modules'')"

definition is_markdown :: "string \<Rightarrow> bool" where
  "is_markdown n = (endsWith n ''.md'' \<or> endsWith n ''.markdown'')"

fun files_below :: "dirent \<Rightarrow> string list list"
  and files_in :: "dirent list \<Rightarrow> string list list" where
  "files_below (File n) = [[n]]"
| "files_below (Directory n es) = map ((#) n) (files_in es)"
| "files_below (Locked n) = []"
| "files_below (Other n) = [[n]]"
| "files_in [] = []"
| "files_in (e # es) = files_below e @ files_in es"

definition listed :: "string list \<Rightarrow> bool" where
  "listed ns = (ns \<noteq> [] \<and> is_markdown (last ns) \<and> list_all (\<lambda>d. \<not> pruned d) (butlast ns))"

definition spec_resolve :: "host \<Rightarrow> string \<Rightarrow> dirent list \<Rightarrow> string list" where
  "spec_resolve H dir entries =
     sort (map (foldl (path_join H) dir) (filter listed (files_in entries)))"

text \<open>The same with the regular files only, for which \<^verbatim>\<open>isFile()\<close> holds.\<close>

fun regular_below :: "dirent \<Rightarrow> string list list"
  and regular_in :: "dirent list \<Rightarrow> string list list" where
  "regular_below (File n) = [[n]]"
| "regular_below (Directory n es) = map ((#) n) (regular_in es)"
| "regular_below (Locked n) = []"
| "regular_below (Other n) = []"
| "regular_in [] = []"
| "regular_in (e # es) = regular_below e @ regular_in es"

definition regular_resolve :: "host \<Rightarrow> string \<Rightarrow> dirent list \<Rightarrow> string list" where
  "regular_resolve H dir entries =
     sort (map (foldl (path_join H) dir) (filter listed (regular_in entries)))"

text \<open>
  Every directory that the walk has to list can be listed: a directory that cannot is
  tolerated only at or below a pruned name.
\<close>

fun readable :: "dirent \<Rightarrow> bool"
  and readable_all :: "dirent list \<Rightarrow> bool" where
  "readable (File n) = True"
| "readable (Directory n es) = (pruned n \<or> readable_all es)"
| "readable (Locked n) = pruned n"
| "readable (Other n) = True"
| "readable_all [] = True"
| "readable_all (e # es) = (readable e \<and> readable_all es)"

section \<open>Texts made of emphasis spans\<close>











section \<open>The process and its terminal\<close>

text \<open>
  The variables that the closures of \<^verbatim>\<open>showFileSelector\<close> share (\<open>files\<close>, \<open>selected\<close>,
  \<open>searchMode\<close>, \<open>searchQuery\<close>, \<open>searchResults\<close>), and the part of the world that the
  handlers touch: the raw mode of the terminal, whether standard input is paused, the
  number of listeners for its data, what was written to the screen, the files that can be
  read with their contents, the paths that can be neither written nor deleted, the clock,
  whether the pager can be started, the pager that is running, and whether the process
  is still alive.
\<close>

datatype status = Running | Exited int | Uncaught exn

datatype out =
    ClearScreen
  | FileFrame "string list" int
  | SearchFrame string "search_result list" int

record viewer =
  lessArgs :: "string list"
  tmpFile :: string
  onClose :: bool

record world =
  files :: "string list"
  selected :: int
  searchMode :: bool
  searchQuery :: string
  searchResults :: "search_result list"
  rawMode :: bool
  paused :: bool
  listeners :: nat
  stdout :: "out list"
  disk :: "string \<rightharpoonup> string"
  denied :: "string \<Rightarrow> bool"
  now :: nat
  spawnable :: bool
  child :: "viewer option"
  status :: status

text \<open>\<^verbatim>\<open>xs[i]\<close>: \<open>None\<close> is \<^verbatim>\<open>undefined\<close>.\<close>

definition js_index :: "'a list \<Rightarrow> int \<Rightarrow> 'a option" where
  "js_index xs i = (if 0 \<le> i \<and> i < int (length xs) then Some (xs ! nat i) else None)"

definition clear_screen :: "world \<Rightarrow> world" where
  "clear_screen w = w\<lparr>stdout := stdout w @ [ClearScreen]\<rparr>"

text \<open>
  \<^verbatim>\<open>renderList\<close> clears the screen and paints the list of the current mode; the frame
  records the values that the painting reads.
\<close>

definition renderList :: "world \<Rightarrow> world" where
  "renderList w =
     (let w1 = clear_screen w
      in if searchMode w1
         then w1\<lparr>stdout := stdout w1 @ [SearchFrame (searchQuery w1) (searchResults w1) (selected w1)]\<rparr>
         else w1\<lparr>stdout := stdout w1 @ [FileFrame (files w1) (selected w1)]\<rparr>)"

definition startSelector :: "world \<Rightarrow> world" where
  "startSelector w =
     (let w1 = w\<lparr>searchMode := False, searchQuery := [], searchResults := [], selected := 0\<rparr>;
          w2 = renderList w1
      in w2\<lparr>rawMode := True, paused := False, listeners := listeners w2 + 1\<rparr>)"

text \<open>
  The long prompt of the pager; its two arrows are written as the bytes that the child
  receives.
\<close>

definition long_prompt :: string where
  "long_prompt = ''-PM%Pb'' @ [CHR 0x5C, CHR 0x5C] @ ''%  '' @ [CHR 0xE2, CHR 0x86, CHR 0x91]
     @ ''/'' @ [CHR 0xE2, CHR 0x86, CHR 0x93] @ '':scroll  PgUp/PgDn:page  q:quit''"

text \<open>
  \<^verbatim>\<open>showWithLess(content, filename, onClose, startLine)\<close> up to the call of \<^verbatim>\<open>spawn\<close>:
  \<open>onClose\<close> tells whether a continuation was passed, \<open>startLine\<close> is \<open>None\<close> for
  \<^verbatim>\<open>undefined\<close>. A failure of \<^verbatim>\<open>writeFileSync\<close> is not caught. When the pager cannot be
  started, the child emits \<^verbatim>\<open>error\<close>, for which there is no listener: the process ends
  with an uncaught exception and the artifact stays where it was written.
\<close>

definition showWithLess :: "host \<Rightarrow> string \<Rightarrow> string \<Rightarrow> bool \<Rightarrow> nat option \<Rightarrow> world \<Rightarrow> world" where
  "showWithLess H content filename cont startLine w =
     (let header = ''  '' @ applyStyle (chalk_level H) inverse_black ('' '' @ filename @ '' '')
                   @ [NL, NL];
          rendered = header @ render H content;
          tmp = path_join H (os_tmpdir H) (''mdview-'' @ decimal (now w) @ ''.txt'')
      in if denied w tmp then w\<lparr>status := Uncaught (WriteError tmp)\<rparr>
         else
           let w1 = w\<lparr>disk := (disk w)(tmp \<mapsto> rendered)\<rparr>;
               args = [''-R'', ''-i'', ''-M'',
                       ''-Ps%Pb'' @ [CHR 0x5C, CHR 0x5C] @ ''%'',
                       ''-Pm%Pb'' @ [CHR 0x5C, CHR 0x5C] @ ''%'',
                       long_prompt];
               args = (case startLine of
                         None \<Rightarrow> args
                       | Some n \<Rightarrow> if n \<noteq> 0 \<and> n > 1 then args @ [''+'' @ decimal n] else args);
               args = args @ [tmp]
           in if spawnable w1
              then w1\<lparr>child := Some \<lparr>lessArgs = args, tmpFile = tmp, onClose = cont\<rparr>\<rparr>
              else w1\<lparr>status := Uncaught SpawnError\<rparr>)"

text \<open>
  The listener for the \<^verbatim>\<open>close\<close> event of the pager; the exit code of the child is not
  read. \<^verbatim>\<open>unlinkSync\<close> throws when the file is gone or may not be deleted, and nothing
  catches that.
\<close>

definition less_close :: "world \<Rightarrow> world" where
  "less_close w =
     (case child w of
        None \<Rightarrow> w
      | Some v \<Rightarrow>
          let w0 = w\<lparr>child := None\<rparr>
          in if disk w0 (tmpFile v) = None \<or> denied w0 (tmpFile v)
             then w0\<lparr>status := Uncaught (UnlinkError (tmpFile v))\<rparr>
             else
               let w1 = w0\<lparr>disk := (disk w0)(tmpFile v := None)\<rparr>
               in if onClose v then startSelector w1 else w1\<lparr>status := Exited 0\<rparr>)"

definition key_up :: string where "key_up = ESC # ''[A''"
definition key_down :: string where "key_down = ESC # ''[B''"

text \<open>The part of \<^verbatim>\<open>inputHandler\<close> that runs when \<open>searchMode\<close> is set.\<close>

definition search_key :: "host \<Rightarrow> string \<Rightarrow> world \<Rightarrow> world" where
  "search_key H key w =
     (if key = [ESC] \<and> length key = 1 then
        renderList (w\<lparr>searchMode := False, searchQuery := [], searchResults := [], selected := 0\<rparr>)
      else if key = [CHR 0x7F] \<or> key = [CHR 0x08] then
        (let q = butlast (searchQuery w);
             r = (if length q > 0 then searchInFiles H (disk w) (files w) q else [])
         in renderList (w\<lparr>searchQuery := q, searchResults := r, selected := 0\<rparr>))
      else if key = [CR] \<or> key = [NL] then
        (if length (searchResults w) > 0 then
           (let w1 = clear_screen (w\<lparr>rawMode := False, paused := True, listeners := 0\<rparr>)
            in case js_index (searchResults w1) (selected w1) of
                 None \<Rightarrow> w1\<lparr>status := Uncaught TypeError\<rparr>
               | Some result \<Rightarrow>
                   (case disk w1 (rfile result) of
                      None \<Rightarrow> w1\<lparr>status := Uncaught (ReadError (rfile result))\<rparr>
                    | Some content \<Rightarrow>
                        showWithLess H content (relPath result) True (Some (line result)) w1))
         else w)
      else if key = key_up then
        renderList (if length (searchResults w) > 0
                    then w\<lparr>selected := (if selected w > 0 then selected w - 1
                                         else int (length (searchResults w)) - 1)\<rparr>
                    else w)
      else if key = key_down then
        renderList (if length (searchResults w) > 0
                    then w\<lparr>selected := (if selected w < int (length (searchResults w)) - 1
                                         then selected w + 1 else 0)\<rparr>
                    else w)
      else if length key = 1 \<and> key \<ge> '' '' then
        (let q = searchQuery w @ key
         in renderList (w\<lparr>searchQuery := q,
                          searchResults := searchInFiles H (disk w) (files w) q,
                          selected := 0\<rparr>))
      else w)"

text \<open>The part of \<^verbatim>\<open>inputHandler\<close> for the normal mode.\<close>

definition browse_key :: "host \<Rightarrow> string \<Rightarrow> world \<Rightarrow> world" where
  "browse_key H key w =
     (if key = ''q'' then (clear_screen w)\<lparr>status := Exited 0\<rparr>
      else if key = ''/'' then
        renderList (w\<lparr>searchMode := True, searchQuery := [], searchResults := [], selected := 0\<rparr>)
      else if key = [CR] \<or> key = [NL] then
        (let w1 = clear_screen (w\<lparr>rawMode := False, paused := True, listeners := 0\<rparr>)
         in case js_index (files w1) (selected w1) of
              None \<Rightarrow> w1\<lparr>status := Uncaught TypeError\<rparr>
            | Some f \<Rightarrow>
                (case disk w1 f of
                   None \<Rightarrow> w1\<lparr>status := Uncaught (ReadError f)\<rparr>
                 | Some content \<Rightarrow>
                     showWithLess H content (path_relative H ''.'' f) True None w1))
      else
        (let w1 = (if key = key_up \<or> key = ''k''
                   then renderList (w\<lparr>selected := (if selected w > 0 then selected w - 1
                                                     else int (length (files w)) - 1)\<rparr>)
                   else w);
             w2 = (if key = key_down \<or> key = ''j''
                   then renderList (w1\<lparr>selected := (if selected w1 < int (length (files w1)) - 1
                                                      then selected w1 + 1 else 0)\<rparr>)
                   else w1)
         in w2))"

definition inputHandler :: "host \<Rightarrow> string \<Rightarrow> world \<Rightarrow> world" where
  "inputHandler H key w =
     (if key = [CHR 0x03] then (clear_screen w)\<lparr>status := Exited 0\<rparr>
      else if searchMode w then search_key H key w
      else browse_key H key w)"

text \<open>
  What reaches the program: a chunk of keys on standard input, delivered to the listener
  while the process runs, listens and is not paused, and the end of the pager.
\<close>

datatype event = Key string | ViewerClosed

text \<open>
  \<^verbatim>\<open>emit('data', key)\<close> with \<open>n\<close> listeners, each of them \<^verbatim>\<open>inputHandler\<close>: the
  listeners that were attached when the chunk arrived are called in turn, until the
  process ends.
\<close>

fun emit :: "host \<Rightarrow> string \<Rightarrow> nat \<Rightarrow> world \<Rightarrow> world" where
  "emit H k 0 w = w"
| "emit H k (Suc n) w = (if status w \<noteq> Running then w else emit H k n (inputHandler H k w))"

definition deliver :: "host \<Rightarrow> event \<Rightarrow> world \<Rightarrow> world" where
  "deliver H ev w =
     (if status w \<noteq> Running then w
      else case ev of
             Key k \<Rightarrow> if \<not> paused w then emit H k (listeners w) w else w
           | ViewerClosed \<Rightarrow> less_close w)"

definition run :: "host \<Rightarrow> event list \<Rightarrow> world \<Rightarrow> world" where
  "run H evs w = foldl (\<lambda>s ev. deliver H ev s) w evs"

text \<open>\<^verbatim>\<open>showFileSelector(files)\<close> in a world \<open>w\<close>: the variables are set and the selector starts.\<close>

definition showFileSelector :: "string list \<Rightarrow> world \<Rightarrow> world" where
  "showFileSelector fs w =
     startSelector (w\<lparr>files := fs, selected := 0, searchMode := False, searchQuery := [],
                      searchResults := []\<rparr>)"

section \<open>Navigation\<close>

text \<open>
  The keys that \<^verbatim>\<open>inputHandler\<close> takes as up and as down in the mode of \<open>w\<close>, the length
  of the list that the cursor \<open>selected\<close> runs over in that mode, and a sequence of
  keys handled one after the other.
\<close>

definition is_up :: "world \<Rightarrow> string \<Rightarrow> bool" where
  "is_up w k = (k = key_up \<or> (\<not> searchMode w \<and> k = ''k''))"

definition is_down :: "world \<Rightarrow> string \<Rightarrow> bool" where
  "is_down w k = (k = key_down \<or> (\<not> searchMode w \<and> k = ''j''))"

definition activeList_length :: "world \<Rightarrow> nat" where
  "activeList_length w = (if searchMode w then length (searchResults w) else length (files w))"

definition press :: "host \<Rightarrow> string list \<Rightarrow> world \<Rightarrow> world" where
  "press H ks w = foldl (\<lambda>s k. inputHandler H k s) w ks"

section \<open>Concrete hosts and worlds\<close>

text \<open>
  A host with POSIX paths relative to the working directory, a conversion that passes the
  text on as it is, and an environment that sets \<^verbatim>\<open>NO_COLOR\<close>, which the detection of the
  level honours.
\<close>

definition no_color_host :: host where
  "no_color_host =
     \<lparr>path_join = (\<lambda>d n. if d = ''.'' then n else d @ ''/'' @ n),
      path_basename = (\<lambda>p. rev (takeWhile (\<lambda>c. c \<noteq> CHR ''/'') (rev p))),
      path_relative = (\<lambda>from to. to),
      os_tmpdir = ''/tmp'',
      marked_parse = (\<lambda>s. s),
      environ = [''NO_COLOR'' \<mapsto> ''1''],
      detect_level = (\<lambda>e. if e ''NO_COLOR'' = None then 3 else 0)\<rparr>"

text \<open>
  The process before the selector starts: nobody listens to the keys yet. Of the three
  documents on the list, \<^verbatim>\<open>c.md\<close> cannot be read.
\<close>

definition booted :: world where
  "booted =
     \<lparr>files = [], selected = 0, searchMode = False, searchQuery = [], searchResults = [],
      rawMode = False, paused = True, listeners = 0, stdout = [],
      disk = [''a.md'' \<mapsto> ''Hello'', ''b.md'' \<mapsto> ''x'' @ [NL] @ ''**y**''],
      denied = (\<lambda>p. False), now = 0, spawnable = True, child = None, status = Running\<rparr>"

text \<open>The browser over the three documents, with the cursor on the first.\<close>

definition browsing :: world where
  "browsing =
     \<lparr>files = [''a.md'', ''b.md'', ''c.md''], selected = 0, searchMode = False,
      searchQuery = [], searchResults = [], rawMode = True, paused = False, listeners = 1,
      stdout = [], disk = [''a.md'' \<mapsto> ''Hello'', ''b.md'' \<mapsto> ''x'' @ [NL] @ ''**y**''],
      denied = (\<lambda>p. False), now = 0, spawnable = True, child = None, status = Running\<rparr>"

text \<open>The same browser in search mode, after the query \<^verbatim>\<open>y\<close> found line 2 of \<^verbatim>\<open>b.md\<close>.\<close>

definition searching :: world where
  "searching =
     browsing\<lparr>searchMode := True, searchQuery := ''y'',
       searchResults := [\<lparr>rfile = ''b.md'', basename = ''b.md'', relPath = ''b.md'', line = 2,
                          preview = ''**y**''\<rparr>]\<rparr>"

text \<open>The pager is showing an artifact that the process may not delete.\<close>

definition viewing :: world where
  "viewing =
     browsing\<lparr>rawMode := False, paused := True, listeners := 0,
       disk := (disk browsing)(''/tmp/mdview-0.txt'' \<mapsto> ''Hello''),
       denied := (\<lambda>p. p = ''/tmp/mdview-0.txt''),
       child := Some \<lparr>lessArgs = [''-R'', ''/tmp/mdview-0.txt''], tmpFile = ''/tmp/mdview-0.txt'',
                      onClose = True\<rparr>\<rparr>"

text \<open>
  A directory tree: two documents and a text file at the top, a directory \<^verbatim>\<open>docs\<close> with a
  document and a link, a hidden directory with a document, and \<^verbatim>\<open>node_modules\<close> with a
  document and a directory that cannot be listed.
\<close>

definition tree :: "dirent list" where
  "tree =
     [File ''b.markdown'', File ''c.txt'',
      Directory ''node_modules'' [File ''readme.md'', Locked ''cache''],
      Directory ''docs'' [File ''z.md'', Other ''link.md''],
      Directory ''.git'' [File ''notes.md''],
      File ''a.md'']"

text \<open>A directory with two documents and, between them, a directory that cannot be listed.\<close>

definition locked_tree :: "dirent list" where
  "locked_tree = [File ''a.md'', Locked ''private'', Directory ''zz'' [File ''b.md'']]"

section \<open>Properties of the renderer\<close>

subsection \<open>Runs of line feeds\<close>

lemma split_lines_nonempty: "split_lines s \<noteq> []"
  by (induction s) (auto split: list.splits)

lemma newline_runs_split:
  "c \<noteq> NL \<Longrightarrow>
   replace_newline_runs (pre @ c # s) = replace_newline_runs pre @ c # replace_newline_runs s"
proof (induction pre rule: replace_newline_runs.induct)
  case 1
  then show ?case by simp
next
  case (2 x xs)
  let ?P = "\<lambda>y. y = NL"
  have tw: "takeWhile ?P (x # xs @ c # s) = takeWhile ?P (x # xs)"
    using "2.prems" takeWhile_tail [of ?P c "x # xs" s] by simp
  have dw: "dropWhile ?P (x # xs @ c # s) = dropWhile ?P (x # xs) @ c # s"
    using "2.prems" dropWhile_append3 [of ?P c "x # xs" s] by simp
  have unfold: "replace_newline_runs (x # xs @ c # s) =
      (if 3 \<le> length (takeWhile ?P (x # xs))
       then [NL, NL] @ replace_newline_runs (dropWhile ?P (x # xs) @ c # s)
       else x # replace_newline_runs (xs @ c # s))"
    by (subst replace_newline_runs.simps) (simp only: tw dw)
  show ?case
  proof (cases "3 \<le> length (takeWhile ?P (x # xs))")
    case True
    from "2.IH"(1) [OF True "2.prems"] True show ?thesis
      by (simp only: append_Cons unfold replace_newline_runs.simps(2) [of x xs] if_True append_assoc)
  next
    case False
    from "2.IH"(2) [OF False "2.prems"] False show ?thesis
      by (simp only: append_Cons unfold replace_newline_runs.simps(2) [of x xs] if_False)
  qed
qed

lemma newline_runs_snoc:
  "c \<noteq> NL \<Longrightarrow> replace_newline_runs (pre @ [c]) = replace_newline_runs pre @ [c]"
  using newline_runs_split [of c pre "[]"] by simp

lemma newline_run_head:
  assumes "post = [] \<or> hd post \<noteq> NL"
  shows "replace_newline_runs (replicate n NL @ post) =
     (if 3 \<le> n then [NL, NL] else replicate n NL) @ replace_newline_runs post"
proof -
  let ?P = "\<lambda>y. y = NL"
  from assms have tp: "takeWhile ?P post = []" and dp: "dropWhile ?P post = post"
    by (cases post; simp)+
  have tw: "takeWhile ?P (replicate n NL @ post) = replicate n NL"
    using tp by (induction n) simp_all
  have dw: "dropWhile ?P (replicate n NL @ post) = post"
    using dp by (induction n) simp_all
  show ?thesis
  proof (cases "3 \<le> n")
    case True
    then obtain m where n: "n = Suc m" by (cases n) auto
    have "replace_newline_runs (NL # replicate m NL @ post) =
        [NL, NL] @ replace_newline_runs post"
      using tw dw True unfolding n
      by (subst replace_newline_runs.simps) simp
    then show ?thesis using True n by simp
  next
    case False
    then consider "n = 0" | "n = 1" | "n = 2" by linarith
    then show ?thesis
    proof cases
      case 1
      then show ?thesis by simp
    next
      case 2
      then show ?thesis using tp by simp
    next
      case 3
      then show ?thesis using tp by (simp add: numeral_2_eq_2)
    qed
  qed
qed

text \<open>
  C4, as amended. The first pass replaces every maximal run of three or more line feeds
  by exactly two, so that two or more blank lines between two lines of text become one
  blank line, and copies every shorter run: a single blank line stays, and so does a
  plain line break. The text before the run and the text after it are processed on
  their own.
\<close>

theorem newline_runs_collapse_to_two:
  assumes "pre = [] \<or> last pre \<noteq> NL" and "post = [] \<or> hd post \<noteq> NL"
  shows "replace_newline_runs (pre @ replicate n NL @ post) =
     replace_newline_runs pre @ (if 3 \<le> n then [NL, NL] else replicate n NL)
       @ replace_newline_runs post"
proof (cases pre rule: rev_cases)
  case Nil
  then show ?thesis using newline_run_head [OF assms(2)] by simp
next
  case (snoc pre0 c)
  with assms(1) have c: "c \<noteq> NL" by simp
  have "replace_newline_runs (pre0 @ c # (replicate n NL @ post)) =
      replace_newline_runs pre0 @ c # replace_newline_runs (replicate n NL @ post)"
    using c by (rule newline_runs_split)
  then show ?thesis
    using snoc newline_runs_snoc [OF c, of pre0] newline_run_head [OF assms(2), of n] by simp
qed

text \<open>
  The claim as stated fails for a run of two blank lines, which is fewer than three
  and is collapsed to one all the same; and three blank lines at the start of the text
  become two, not one.
\<close>

theorem two_blank_lines_collapse_counterexample:
  "split_lines (''a'' @ [NL, NL, NL] @ ''b'') = [''a'', [], [], ''b'']
   \<and> split_lines (replace_newline_runs (''a'' @ [NL, NL, NL] @ ''b'')) = [''a'', [], ''b'']
   \<and> split_lines ([NL, NL, NL] @ ''b'') = [[], [], [], ''b'']
   \<and> split_lines (replace_newline_runs ([NL, NL, NL] @ ''b'')) = [[], [], ''b'']"
  by simp

theorem newline_runs_collapse_to_two_witness:
  "last ''a'' \<noteq> NL \<and> hd ''b'' \<noteq> NL
   \<and> replace_newline_runs (''a'' @ replicate 4 NL @ ''b'') = ''a'' @ [NL, NL] @ ''b''
   \<and> replace_newline_runs (''a'' @ replicate 2 NL @ ''b'') = ''a'' @ [NL, NL] @ ''b''"
proof -
  have h1: "''a'' = [] \<or> last ''a'' \<noteq> NL" by simp
  have h2: "''b'' = [] \<or> hd ''b'' \<noteq> NL" by simp
  show ?thesis using newline_runs_collapse_to_two [OF h1 h2, of 4] newline_runs_collapse_to_two [OF h1 h2, of 2] by (simp add: numeral_2_eq_2)
qed

subsection \<open>Emphasis spans\<close>




lemma match_span_found:
  assumes "d \<noteq> []" "hd d = c" "c \<notin> set t" "t \<noteq> []"
  shows "match_span d c (d @ t @ d @ q) = Some (t, q)"
proof -
  let ?P = "\<lambda>x. x \<noteq> c"
  from assms(1,2) obtain d' where d: "d = c # d'" by (cases d) auto
  have tw: "takeWhile ?P (t @ d @ q) = t"
    using assms(3) by (auto simp: d takeWhile_tail)
  have dw: "dropWhile ?P (t @ d @ q) = d @ q"
    using assms(3) by (auto simp: d dropWhile_append3)
  show ?thesis
    using assms(4) by (simp add: match_span_def startsWith_def tw dw)
qed







lemma applyStyle_opens:
  "0 < l \<Longrightarrow> st \<noteq> [] \<Longrightarrow> s \<noteq> [] \<Longrightarrow> set (openAll st) \<subseteq> set (applyStyle l st s)"
  by (auto simp: applyStyle_def Let_def)

lemma newline_runs_chars: "set (replace_newline_runs s) \<subseteq> set s"
proof (induction s rule: replace_newline_runs.induct)
  case 1
  show ?case by simp
next
  case (2 c cs)
  show ?case
  proof (cases "3 \<le> length (takeWhile (\<lambda>x. x = NL) (c # cs))")
    case True
    then have "c = NL" by (auto split: if_splits)
    moreover have "set (dropWhile (\<lambda>x. x = NL) (c # cs)) \<subseteq> set (c # cs)"
      by (meson set_dropWhileD subsetI)
    ultimately show ?thesis using "2.IH"(1) [OF True] True
      by (subst replace_newline_runs.simps) auto
  next
    case False
    then show ?thesis using "2.IH"(2) [OF False]
      by (subst replace_newline_runs.simps) auto
  qed
qed

lemma newline_runs_nonempty: "s \<noteq> [] \<Longrightarrow> replace_newline_runs s \<noteq> []"
  by (cases s) simp_all

lemma newline_runs_word:
  "NL \<notin> set d \<Longrightarrow> d \<noteq> [] \<Longrightarrow>
   replace_newline_runs (pre @ d @ s) = replace_newline_runs pre @ d @ replace_newline_runs s"
proof (induction d arbitrary: pre)
  case Nil
  then show ?case by simp
next
  case (Cons c d)
  then have c: "c \<noteq> NL" by auto
  show ?case
  proof (cases "d = []")
    case True
    then show ?thesis using newline_runs_split [OF c, of pre s] by simp
  next
    case False
    with Cons have "replace_newline_runs ([] @ d @ s) = replace_newline_runs [] @ d @ replace_newline_runs s"
      by (intro Cons.IH) auto
    then show ?thesis using newline_runs_split [OF c, of pre "d @ s"] by simp
  qed
qed

lemma newline_runs_span:
  assumes "NL \<notin> set d" "d \<noteq> []"
  shows "replace_newline_runs (pre @ d @ t @ d @ post) =
     replace_newline_runs pre @ d @ replace_newline_runs t @ d @ replace_newline_runs post"
  using newline_runs_word [OF assms, of pre "t @ d @ post"] newline_runs_word [OF assms, of t post]
  by simp

lemma join_lines_insert:
  "set (join_lines ((a @ c # l) # xs)) = insert c (set (join_lines ((a @ l) # xs)))"
  by (cases xs) auto

lemma padded_chars:
  "set (join_lines (map (\<lambda>line. ''  '' @ line) (split_lines s))) = insert (CHR '' '') (set s)"
proof (induction s)
  case Nil
  show ?case by simp
next
  case (Cons c cs)
  let ?f = "\<lambda>line. ''  '' @ line"
  obtain l ls where sp: "split_lines cs = l # ls"
    using split_lines_nonempty [of cs] by (cases "split_lines cs") auto
  from Cons have ih: "set (join_lines ((''  '' @ l) # map ?f ls)) = insert (CHR '' '') (set cs)"
    by (simp only: sp list.map)
  show ?case
  proof (cases "c = NL")
    case True
    then have "join_lines (map ?f (split_lines (c # cs))) =
        ''  '' @ NL # join_lines ((''  '' @ l) # map ?f ls)"
      by (simp add: sp)
    then show ?thesis using ih True by auto
  next
    case False
    then have "join_lines (map ?f (split_lines (c # cs))) =
        join_lines ((''  '' @ c # l) # map ?f ls)"
      by (simp add: sp)
    then show ?thesis using ih join_lines_insert [of "''  ''" c l "map ?f ls"] by auto
  qed
qed


lemma style_opens:
  "ESC \<in> set (openAll bold)" "ESC \<in> set (openAll italic)"
  "ESC \<in> set (openAll bgHex_E0E0E0_hex_000000)"
  "bold \<noteq> []" "italic \<noteq> []" "bgHex_E0E0E0_hex_000000 \<noteq> []"
  by (simp_all add: openAll_def bold_def italic_def bgHex_E0E0E0_hex_000000_def)

lemma chalk_level_3: "chalk_level H = 3"
  by (simp add: chalk_level_def)
























subsection \<open>The level of the styles\<close>

lemma newline_runs_keeps: "x \<in> set s \<Longrightarrow> x \<noteq> NL \<Longrightarrow> x \<in> set (replace_newline_runs s)"
proof (induction s rule: replace_newline_runs.induct)
  case 1
  then show ?case by simp
next
  case (2 c cs)
  show ?case
  proof (cases "3 \<le> length (takeWhile (\<lambda>y. y = NL) (c # cs))")
    case True
    have "x \<in> set (takeWhile (\<lambda>y. y = NL) (c # cs) @ dropWhile (\<lambda>y. y = NL) (c # cs))"
      using "2.prems"(1) by (simp only: takeWhile_dropWhile_id)
    then have "x \<in> set (dropWhile (\<lambda>y. y = NL) (c # cs))"
      using "2.prems"(2) by (auto dest: set_takeWhileD)
    then show ?thesis using "2.IH"(1) [OF True _ "2.prems"(2)] True
      by (subst replace_newline_runs.simps) simp
  next
    case False
    then show ?thesis using "2.IH"(2) [OF False _ "2.prems"(2)] "2.prems"(1)
      by (subst replace_newline_runs.simps) auto
  qed
qed

lemma match_span_capture: "match_span d c s = Some (t, rest) \<Longrightarrow> t \<noteq> []"
  by (auto simp: match_span_def Let_def split: if_splits)

lemma replace_spans_keeps:
  assumes "\<And>t. t \<noteq> [] \<Longrightarrow> x \<in> set (f t)"
  shows "x \<in> set s \<Longrightarrow> x \<in> set (replace_spans d c f s)"
proof (induction s)
  case Nil
  then show ?case by simp
next
  case (Cons y ys)
  show ?case
  proof (cases "match_span d c (y # ys)")
    case None
    then have eq: "replace_spans d c f (y # ys) = y # replace_spans d c f ys"
      by (simp only: replace_spans.simps option.case)
    from Cons.prems have "x = y \<or> x \<in> set ys" by simp
    then show ?thesis using Cons.IH by (auto simp only: eq list.set)
  next
    case (Some p)
    obtain t rest where p: "p = (t, rest)" by (cases p)
    from Some have m: "match_span d c (y # ys) = Some (t, rest)" by (simp only: p)
    then have "t \<noteq> []" by (rule match_span_capture)
    then have "x \<in> set (f t)" by (rule assms)
    moreover have "replace_spans d c f (y # ys) = f t @ replace_spans d c f rest"
      by (simp only: replace_spans.simps m option.case prod.case)
    ultimately show ?thesis by (simp only: set_append Un_iff) blast
  qed
qed

lemma styled_has_ESC:
  assumes "ESC \<in> set (openAll st)" "st \<noteq> []" "t \<noteq> []"
  shows "ESC \<in> set (applyStyle (chalk_level H) st t)"
  using applyStyle_opens [of "chalk_level H" st t] assms by (auto simp: chalk_level_3)

lemma render_keeps_ESC:
  assumes "ESC \<in> set (marked_parse H content)"
  shows "ESC \<in> set (render H content)"
proof -
  let ?s1 = "replace_newline_runs (marked_parse H content)"
  let ?s2 = "replace_spans ''**'' (CHR ''*'') (applyStyle (chalk_level H) bold) ?s1"
  let ?s3 = "replace_spans ''*'' (CHR ''*'') (applyStyle (chalk_level H) italic) ?s2"
  let ?s4 = "replace_spans ''`'' (CHR ''`'') (applyStyle (chalk_level H) bgHex_E0E0E0_hex_000000) ?s3"
  have 1: "ESC \<in> set ?s1" using assms by (intro newline_runs_keeps) simp_all
  have 2: "ESC \<in> set ?s2"
    by (rule replace_spans_keeps [OF styled_has_ESC [OF style_opens(1) style_opens(4)] 1])
  have 3: "ESC \<in> set ?s3"
    by (rule replace_spans_keeps [OF styled_has_ESC [OF style_opens(2) style_opens(5)] 2])
  have 4: "ESC \<in> set ?s4"
    by (rule replace_spans_keeps [OF styled_has_ESC [OF style_opens(3) style_opens(6)] 3])
  have "render H content = join_lines (map (\<lambda>line. ''  '' @ line) (split_lines ?s4))"
    by (simp only: render_def Let_def)
  then show ?thesis using 4 by (simp only: padded_chars) simp
qed

text \<open>
  Styling only adds characters, and the second pass only removes markers: what the
  conversion emitted, markers and line feeds apart, is still in the output, in order.
\<close>

lemma filter_newline_runs: "\<not> P NL \<Longrightarrow> filter P (replace_newline_runs s) = filter P s"
proof (induction s rule: replace_newline_runs.induct)
  case 1
  show ?case by simp
next
  case (2 c cs)
  show ?case
  proof (cases "3 \<le> length (takeWhile (\<lambda>x. x = NL) (c # cs))")
    case True
    have "filter P (takeWhile (\<lambda>x. x = NL) (c # cs)) = []"
      using "2.prems" by (auto simp: filter_empty_conv dest: set_takeWhileD)
    then have "filter P (takeWhile (\<lambda>x. x = NL) (c # cs) @ dropWhile (\<lambda>x. x = NL) (c # cs)) =
        filter P (dropWhile (\<lambda>x. x = NL) (c # cs))"
      by (simp only: filter_append append_Nil)
    then have "filter P (c # cs) = filter P (dropWhile (\<lambda>x. x = NL) (c # cs))"
      by (simp only: takeWhile_dropWhile_id)
    then show ?thesis using "2.IH"(1) [OF True "2.prems"] True "2.prems"
      by (subst replace_newline_runs.simps) simp
  next
    case False
    then show ?thesis using "2.IH"(2) [OF False "2.prems"]
      by (subst replace_newline_runs.simps) simp
  qed
qed

lemma subseq_stringReplaceAll: "subseq s (stringReplaceAll s sub rep)"
proof (induction s sub rep rule: stringReplaceAll.induct)
  case 1
  show ?case by simp
next
  case (2 c cs sub rep)
  show ?case
  proof (cases "sub \<noteq> [] \<and> startsWith (c # cs) sub")
    case True
    then have "c # cs = sub @ drop (length sub) (c # cs)"
      by (metis append_take_drop_id startsWith_def)
    moreover have "drop (length sub) (c # cs) = drop (length sub - 1) cs"
      using True by (cases sub) simp_all
    ultimately have eq: "c # cs = sub @ drop (length sub - 1) cs" by simp
    have "subseq (sub @ drop (length sub - 1) cs)
        (sub @ rep @ stringReplaceAll (drop (length sub - 1) cs) sub rep)"
      using subseq_drop_many [OF "2.IH"(1) [OF True], of rep] by (simp only: subseq_append')
    then have "subseq (c # cs) (sub @ rep @ stringReplaceAll (drop (length sub - 1) cs) sub rep)"
      by (simp only: eq [symmetric])
    moreover have "stringReplaceAll (c # cs) sub rep =
        sub @ rep @ stringReplaceAll (drop (length sub - 1) cs) sub rep"
      using True by simp
    ultimately show ?thesis by (simp only:)
  next
    case False
    then show ?thesis using "2.IH"(2) by auto
  qed
qed

lemma subseq_encaseCRLF: "subseq s (encaseCRLF s pre post)"
proof (induction s pre post rule: encaseCRLF.induct)
  case (3 c d cs pre post)
  have a: "subseq (c # d # cs) (pre @ [c] @ post @ encaseCRLF (d # cs) pre post)"
    if "subseq (d # cs) (encaseCRLF (d # cs) pre post)"
  proof -
    have "subseq (d # cs) (post @ encaseCRLF (d # cs) pre post)"
      using that by (rule subseq_drop_many)
    then have "subseq (c # d # cs) (c # post @ encaseCRLF (d # cs) pre post)"
      by (rule subseq_Cons2)
    then have "subseq (c # d # cs) (pre @ c # post @ encaseCRLF (d # cs) pre post)"
      by (rule subseq_drop_many)
    then show ?thesis by simp
  qed
  have b: "subseq (c # d # cs) (pre @ [c, d] @ post @ encaseCRLF cs pre post)"
    if "subseq cs (encaseCRLF cs pre post)"
  proof -
    have "subseq cs (post @ encaseCRLF cs pre post)"
      using that by (rule subseq_drop_many)
    then have "subseq (c # d # cs) (c # d # post @ encaseCRLF cs pre post)"
      by (intro subseq_Cons2)
    then have "subseq (c # d # cs) (pre @ c # d # post @ encaseCRLF cs pre post)"
      by (rule subseq_drop_many)
    then show ?thesis by simp
  qed
  consider "c = NL" | "c \<noteq> NL" "c = CR \<and> d = NL" | "c \<noteq> NL" "\<not> (c = CR \<and> d = NL)"
    by blast
  then show ?case
  proof cases
    case 1
    then have "encaseCRLF (c # d # cs) pre post = pre @ [c] @ post @ encaseCRLF (d # cs) pre post"
      by simp
    moreover have "subseq (d # cs) (encaseCRLF (d # cs) pre post)"
      using "3.IH"(1) 1 by blast
    ultimately show ?thesis using a by (simp only:)
  next
    case 2
    then have "encaseCRLF (c # d # cs) pre post = pre @ [c, d] @ post @ encaseCRLF cs pre post"
      by simp
    moreover have "subseq cs (encaseCRLF cs pre post)"
      using "3.IH"(2) 2 by blast
    ultimately show ?thesis using b by (simp only:)
  next
    case 3
    then have "encaseCRLF (c # d # cs) pre post = c # encaseCRLF (d # cs) pre post"
      by auto
    moreover have "subseq (d # cs) (encaseCRLF (d # cs) pre post)"
      using "3.IH"(3) 3 by blast
    ultimately show ?thesis by (simp only: subseq_Cons2)
  qed
qed (simp_all add: subseq_singleton_left)

lemma subseq_reopen:
  "subseq s (foldl (\<lambda>str (opn, cls). stringReplaceAll str cls opn) s xs)"
proof (induction xs arbitrary: s)
  case Nil
  show ?case by simp
next
  case (Cons p xs)
  obtain opn cls where p: "p = (opn, cls)" by (cases p)
  show ?case
    using Cons [of "stringReplaceAll s cls opn"] subseq_stringReplaceAll [of s cls opn]
    by (auto simp: p intro: subseq_order.trans)
qed

lemma subseq_applyStyle: "subseq s (applyStyle l st s)"
proof -
  let ?s1 = "foldl (\<lambda>str (opn, cls). stringReplaceAll str cls opn) s (rev st)"
  have w: "subseq s (openAll st @ x @ closeAll st)" if "subseq s x" for x
    using that by (intro subseq_drop_many subseq_rev_drop_many)
  have 1: "subseq s ?s1" by (rule subseq_reopen)
  have 2: "subseq s (encaseCRLF ?s1 (closeAll st) (openAll st))"
    using 1 subseq_encaseCRLF by (rule subseq_order.trans)
  have 3: "subseq s (encaseCRLF s (closeAll st) (openAll st))" by (rule subseq_encaseCRLF)
  show ?thesis using w [OF 1] w [OF 2] w [OF 3] w [of s]
    by (simp add: applyStyle_def Let_def)
qed

lemma match_span_parts: "match_span d c s = Some (t, rest) \<Longrightarrow> s = d @ t @ d @ rest"
proof -
  assume m: "match_span d c s = Some (t, rest)"
  let ?r = "drop (length d) s"
  let ?r' = "dropWhile (\<lambda>x. x \<noteq> c) ?r"
  from m have 1: "take (length d) s = d" and t: "t = takeWhile (\<lambda>x. x \<noteq> c) ?r"
    and 2: "take (length d) ?r' = d" and rest: "rest = drop (length d) ?r'"
    by (auto simp: match_span_def startsWith_def Let_def split: if_splits)
  have "s = take (length d) s @ ?r" by simp
  also have "?r = t @ ?r'" by (simp add: t)
  also have "?r' = take (length d) ?r' @ rest" by (simp add: rest)
  finally show ?thesis by (simp only: 1 2)
qed

lemma filter_replace_spans:
  assumes d: "filter P d = []" and f: "\<And>t. subseq t (f t)"
  shows "subseq (filter P s) (filter P (replace_spans d c f s))"
proof (induction "length s" arbitrary: s rule: less_induct)
  case less
  show ?case
  proof (cases s)
    case Nil
    then show ?thesis by simp
  next
    case (Cons y ys)
    show ?thesis
    proof (cases "match_span d c (y # ys)")
      case None
      then have eq: "replace_spans d c f (y # ys) = y # replace_spans d c f ys"
        by (simp only: replace_spans.simps option.case)
      have "subseq (filter P ys) (filter P (replace_spans d c f ys))"
        using less [of ys] by (simp add: Cons)
      then show ?thesis by (simp add: Cons eq del: replace_spans.simps)
    next
      case (Some p)
      obtain t rest where p: "p = (t, rest)" by (cases p)
      from Some have m: "match_span d c (y # ys) = Some (t, rest)" by (simp only: p)
      have parts: "y # ys = d @ t @ d @ rest" using m by (rule match_span_parts)
      have "t \<noteq> []" using m by (rule match_span_capture)
      then have "length rest < length s" using arg_cong [OF parts, of length] by (simp add: Cons)
      then have ih: "subseq (filter P rest) (filter P (replace_spans d c f rest))" by (rule less)
      have eq: "replace_spans d c f (y # ys) = f t @ replace_spans d c f rest"
        by (simp only: replace_spans.simps m option.case prod.case)
      have "subseq (filter P t) (filter P (f t))" using f by (rule subseq_filter)
      then have "subseq (filter P t @ filter P rest) (filter P (f t) @ filter P (replace_spans d c f rest))"
        using ih by (rule list_emb_append_mono)
      moreover have "filter P (y # ys) = filter P t @ filter P rest"
        by (simp only: parts filter_append d append_Nil)
      ultimately show ?thesis by (simp only: Cons eq filter_append)
    qed
  qed
qed

lemma join_lines_push:
  "join_lines ((a @ c # l) # xs) = a @ c # drop (length a) (join_lines ((a @ l) # xs))"
  by (cases xs) simp_all

lemma padded_text:
  "\<exists>r. join_lines (map (\<lambda>line. ''  '' @ line) (split_lines s)) = ''  '' @ r \<and> subseq s r"
proof (induction s)
  case Nil
  show ?case by simp
next
  case (Cons c cs)
  let ?f = "\<lambda>line. ''  '' @ line"
  obtain l ls where sp: "split_lines cs = l # ls"
    using split_lines_nonempty [of cs] by (cases "split_lines cs") auto
  from Cons obtain r where r: "join_lines ((''  '' @ l) # map ?f ls) = ''  '' @ r" "subseq cs r"
    by (auto simp only: sp list.map)
  show ?case
  proof (cases "c = NL")
    case True
    then have "join_lines (map ?f (split_lines (c # cs))) =
        ''  '' @ c # join_lines ((''  '' @ l) # map ?f ls)"
      by (simp add: sp)
    then have "join_lines (map ?f (split_lines (c # cs))) = ''  '' @ (c # ''  '' @ r)"
      by (simp only: r(1))
    moreover have "subseq (c # cs) (c # ''  '' @ r)"
      by (intro subseq_Cons2 subseq_drop_many r(2))
    ultimately show ?thesis by blast
  next
    case False
    then have "join_lines (map ?f (split_lines (c # cs))) =
        join_lines ((''  '' @ c # l) # map ?f ls)"
      by (simp add: sp)
    also have "\<dots> = ''  '' @ c # drop (length ''  '') (join_lines ((''  '' @ l) # map ?f ls))"
      by (rule join_lines_push)
    also have "\<dots> = ''  '' @ (c # r)" by (simp only: r(1)) simp
    finally have "join_lines (map ?f (split_lines (c # cs))) = ''  '' @ (c # r)" .
    moreover have "subseq (c # cs) (c # r)" using r(2) by (rule subseq_Cons2)
    ultimately show ?thesis by blast
  qed
qed

lemma subseq_padded: "subseq s (join_lines (map (\<lambda>line. ''  '' @ line) (split_lines s)))"
proof -
  obtain r where "join_lines (map (\<lambda>line. ''  '' @ line) (split_lines s)) = ''  '' @ r" "subseq s r"
    using padded_text by blast
  then show ?thesis by (simp only: subseq_drop_many)
qed

lemma render_keeps_text:
  "subseq (filter (\<lambda>c. c \<notin> {NL, CHR ''*'', CHR ''`''}) (marked_parse H content)) (render H content)"
proof -
  let ?P = "\<lambda>c. c \<notin> {NL, CHR ''*'', CHR ''`''}"
  let ?l = "chalk_level H"
  let ?s1 = "replace_newline_runs (marked_parse H content)"
  let ?s2 = "replace_spans ''**'' (CHR ''*'') (applyStyle ?l bold) ?s1"
  let ?s3 = "replace_spans ''*'' (CHR ''*'') (applyStyle ?l italic) ?s2"
  let ?s4 = "replace_spans ''`'' (CHR ''`'') (applyStyle ?l bgHex_E0E0E0_hex_000000) ?s3"
  have 1: "filter ?P (marked_parse H content) = filter ?P ?s1"
    by (rule filter_newline_runs [symmetric]) simp
  have 2: "subseq (filter ?P ?s1) (filter ?P ?s2)"
    by (rule filter_replace_spans [OF _ subseq_applyStyle]) simp
  have 3: "subseq (filter ?P ?s2) (filter ?P ?s3)"
    by (rule filter_replace_spans [OF _ subseq_applyStyle]) simp
  have 4: "subseq (filter ?P ?s3) (filter ?P ?s4)"
    by (rule filter_replace_spans [OF _ subseq_applyStyle]) simp
  have 5: "subseq (filter ?P ?s4) ?s4" by (rule subseq_filter_left)
  have 6: "render H content = join_lines (map (\<lambda>line. ''  '' @ line) (split_lines ?s4))"
    by (simp only: render_def Let_def)
  have "subseq (filter ?P ?s1) ?s4"
    using 2 3 4 5 by (blast intro: subseq_order.trans)
  then have "subseq (filter ?P ?s1) (render H content)"
    unfolding 6 using subseq_padded by (rule subseq_order.trans)
  then show ?thesis by (simp only: 1)
qed

text \<open>
  A replacement that finds a span anywhere in its text, or that changes its text at all,
  puts an escape character there.
\<close>

lemma replace_spans_hit:
  assumes f: "\<And>t. t \<noteq> [] \<Longrightarrow> x \<in> set (f t)" and m: "match_span d c s \<noteq> None"
  shows "x \<in> set (replace_spans d c f (pre @ s))"
proof (induction pre)
  case Nil
  from m obtain t rest where mt: "match_span d c s = Some (t, rest)" by auto
  then have t: "t \<noteq> []" by (rule match_span_capture)
  have "s \<noteq> []" using match_span_parts [OF mt] t by auto
  then obtain y ys where s: "s = y # ys" by (cases s) auto
  have "replace_spans d c f (y # ys) = f t @ replace_spans d c f rest"
    using mt by (simp only: s replace_spans.simps option.case prod.case)
  then show ?case using f [OF t] by (simp add: s)
next
  case (Cons y ys)
  show ?case
  proof (cases "match_span d c (y # ys @ s)")
    case None
    then have "replace_spans d c f (y # ys @ s) = y # replace_spans d c f (ys @ s)"
      by (simp only: replace_spans.simps option.case)
    then show ?thesis using Cons by (simp del: replace_spans.simps)
  next
    case (Some p)
    obtain t rest where p: "p = (t, rest)" by (cases p)
    from Some have mt: "match_span d c (y # ys @ s) = Some (t, rest)" by (simp only: p)
    then have t: "t \<noteq> []" by (rule match_span_capture)
    have "replace_spans d c f (y # ys @ s) = f t @ replace_spans d c f rest"
      by (simp only: replace_spans.simps mt option.case prod.case)
    then show ?thesis using f [OF t] by (simp del: replace_spans.simps)
  qed
qed

lemma replace_spans_changed:
  assumes f: "\<And>t. t \<noteq> [] \<Longrightarrow> x \<in> set (f t)"
  shows "replace_spans d c f s \<noteq> s \<Longrightarrow> x \<in> set (replace_spans d c f s)"
proof (induction s)
  case Nil
  then show ?case by simp
next
  case (Cons y ys)
  show ?case
  proof (cases "match_span d c (y # ys)")
    case None
    then have eq: "replace_spans d c f (y # ys) = y # replace_spans d c f ys"
      by (simp only: replace_spans.simps option.case)
    with Cons.prems have "replace_spans d c f ys \<noteq> ys" by simp
    then show ?thesis using Cons.IH by (simp add: eq del: replace_spans.simps)
  next
    case (Some p)
    obtain t rest where p: "p = (t, rest)" by (cases p)
    from Some have mt: "match_span d c (y # ys) = Some (t, rest)" by (simp only: p)
    then have t: "t \<noteq> []" by (rule match_span_capture)
    have "replace_spans d c f (y # ys) = f t @ replace_spans d c f rest"
      by (simp only: replace_spans.simps mt option.case prod.case)
    then show ?thesis using f [OF t] by (simp del: replace_spans.simps)
  qed
qed

lemma render_styles_span:
  assumes dc: "(d, c) \<in> {(''**'', CHR ''*''), (''*'', CHR ''*''), (''`'', CHR ''`'')}"
    and mp: "marked_parse H content = pre @ d @ t @ d @ post"
    and t: "t \<noteq> []" "c \<notin> set t"
  shows "ESC \<in> set (render H content)"
proof -
  let ?l = "chalk_level H"
  let ?B = "replace_spans ''**'' (CHR ''*'') (applyStyle ?l bold)"
  let ?I = "replace_spans ''*'' (CHR ''*'') (applyStyle ?l italic)"
  let ?C = "replace_spans ''`'' (CHR ''`'') (applyStyle ?l bgHex_E0E0E0_hex_000000)"
  let ?s1 = "replace_newline_runs (marked_parse H content)"
  let ?P = "replace_newline_runs pre" and ?T = "replace_newline_runs t"
  let ?Q = "replace_newline_runs post"
  note fb = styled_has_ESC [OF style_opens(1) style_opens(4), of _ H]
  note fi = styled_has_ESC [OF style_opens(2) style_opens(5), of _ H]
  note fc = styled_has_ESC [OF style_opens(3) style_opens(6), of _ H]
  from dc have d: "NL \<notin> set d" "d \<noteq> []" "hd d = c" by auto
  have s1: "?s1 = ?P @ d @ ?T @ d @ ?Q"
    by (simp only: mp newline_runs_span [OF d(1,2)])
  have T: "?T \<noteq> []" "c \<notin> set ?T"
    using t newline_runs_nonempty [of t] newline_runs_chars [of t] by auto
  have m: "match_span d c (d @ ?T @ d @ ?Q) \<noteq> None"
    using match_span_found [OF d(2,3) T(2,1), of ?Q] by simp
  have kb: "ESC \<in> set s \<Longrightarrow> ESC \<in> set (?B s)" for s by (rule replace_spans_keeps [OF fb])
  have ki: "ESC \<in> set s \<Longrightarrow> ESC \<in> set (?I s)" for s by (rule replace_spans_keeps [OF fi])
  have kc: "ESC \<in> set s \<Longrightarrow> ESC \<in> set (?C s)" for s by (rule replace_spans_keeps [OF fc])
  have cb: "?B s \<noteq> s \<Longrightarrow> ESC \<in> set (?B s)" for s by (rule replace_spans_changed [OF fb])
  have ci: "?I s \<noteq> s \<Longrightarrow> ESC \<in> set (?I s)" for s by (rule replace_spans_changed [OF fi])
  let ?S = "?P @ d @ ?T @ d @ ?Q"
  from dc consider "d = ''**''" "c = CHR ''*''" | "d = ''*''" "c = CHR ''*''"
    | "d = ''`''" "c = CHR ''`''"
    by auto
  then have "ESC \<in> set (?C (?I (?B ?S)))"
  proof cases
    case 1
    have "ESC \<in> set (?B ?S)"
      using replace_spans_hit [OF fb m, where pre = ?P] by (simp only: 1)
    then show ?thesis by (intro kc ki)
  next
    case 2
    show ?thesis
    proof (cases "?B ?S = ?S")
      case True
      have "ESC \<in> set (?I ?S)"
        using replace_spans_hit [OF fi m, where pre = ?P] by (simp only: 2)
      then have "ESC \<in> set (?I (?B ?S))" by (simp only: True)
      then show ?thesis by (rule kc)
    next
      case False
      then show ?thesis by (intro kc ki cb)
    qed
  next
    case 3
    show ?thesis
    proof (cases "?I (?B ?S) = ?S")
      case True
      have "ESC \<in> set (?C ?S)"
        using replace_spans_hit [OF fc m, where pre = ?P] by (simp only: 3)
      then show ?thesis by (simp only: True)
    next
      case False
      then have "?B ?S \<noteq> ?S \<or> ?I (?B ?S) \<noteq> ?B ?S" by auto
      then show ?thesis using cb [of ?S] ci [of "?B ?S"] ki [of "?B ?S"] kc [of "?I (?B ?S)"]
        by blast
    qed
  qed
  moreover have "render H content =
      join_lines (map (\<lambda>line. ''  '' @ line) (split_lines (?C (?I (?B ?S)))))"
    by (simp only: render_def Let_def s1)
  ultimately show ?thesis by (simp only: padded_chars) simp
qed

text \<open>
  C2, as amended. The program sets the level of the styles to 3 after the library has
  read the environment, so a variable that asks for no colours suppresses nothing. For
  every document, every character of the converted text other than a line feed, an
  asterisk or a backtick is kept in the output of \<^verbatim>\<open>render\<close>, in order, so the escape
  characters that the conversion emitted are all still there; and whenever the converted
  text holds an emphasis span anywhere, \<^verbatim>\<open>**t**\<close>, \<^verbatim>\<open>*t*\<close> or \<^verbatim>\<open>`t`\<close> with a non-empty \<open>t\<close>
  that holds no asterisk (no backtick for code), whatever stands before and after it, the
  output holds escape sequences.
\<close>

theorem render_ignores_color_disable:
  "chalk_level H = 3
   \<and> subseq (filter (\<lambda>x. x \<notin> {NL, CHR ''*'', CHR ''`''}) (marked_parse H content)) (render H content)
   \<and> (ESC \<in> set (marked_parse H content) \<longrightarrow> ESC \<in> set (render H content))
   \<and> ((d, c) \<in> {(''**'', CHR ''*''), (''*'', CHR ''*''), (''`'', CHR ''`'')}
        \<and> marked_parse H content = pre @ d @ t @ d @ post \<and> t \<noteq> [] \<and> c \<notin> set t
      \<longrightarrow> ESC \<in> set (render H content))"
  using render_styles_span [of d c H content pre t post] render_keeps_text [of H content]
    render_keeps_ESC [of H content] chalk_level_3 [of H]
  by blast

text \<open>
  The claim as stated fails: with \<^verbatim>\<open>NO_COLOR\<close> set, and a detection that would choose
  level 0 for it, a bold span is still rendered with escape sequences.
\<close>

theorem no_color_still_styled_counterexample:
  "environ no_color_host ''NO_COLOR'' = Some ''1''
   \<and> detect_level no_color_host (environ no_color_host) = 0
   \<and> ESC \<in> set (render no_color_host ''**a**'')"
  by (simp add: render_def no_color_host_def chalk_level_def match_span_def startsWith_def
      applyStyle_def bold_def italic_def openAll_def closeAll_def)

theorem render_ignores_color_disable_witness:
  "environ no_color_host ''NO_COLOR'' = Some ''1''
   \<and> marked_parse no_color_host (ESC # ''[0m* and *b* or **c**'') =
       (ESC # ''[0m* and '') @ ''*'' @ ''b'' @ ''*'' @ '' or **c**''
   \<and> filter (\<lambda>x. x \<notin> {NL, CHR ''*'', CHR ''`''})
       (marked_parse no_color_host (ESC # ''[0m* and *b* or **c**'')) = ESC # ''[0m and b or c''
   \<and> subseq (ESC # ''[0m and b or c'') (render no_color_host (ESC # ''[0m* and *b* or **c**''))
   \<and> ESC \<in> set (render no_color_host (ESC # ''[0m* and *b* or **c**''))"
proof -
  let ?content = "ESC # ''[0m* and *b* or **c**''"
  have h0: "environ no_color_host ''NO_COLOR'' = Some ''1''" by (simp add: no_color_host_def)
  have h1: "(''*'', CHR ''*'') \<in> {(''**'', CHR ''*''), (''*'', CHR ''*''), (''`'', CHR ''`'')}" by simp
  have h2: "marked_parse no_color_host ?content =
      (ESC # ''[0m* and '') @ ''*'' @ ''b'' @ ''*'' @ '' or **c**''"
    by (simp add: no_color_host_def)
  have h3: "''b'' \<noteq> []" "CHR ''*'' \<notin> set ''b''" by simp_all
  have h4: "filter (\<lambda>x. x \<notin> {NL, CHR ''*'', CHR ''`''}) (marked_parse no_color_host ?content) =
      ESC # ''[0m and b or c''"
    by (simp add: no_color_host_def)
  show ?thesis
    using h0 h1 h2 h3 h4
      render_ignores_color_disable [of no_color_host ?content "''*''" "CHR ''*''" "ESC # ''[0m* and ''" "''b''" "'' or **c**''"]
    by (simp only:) blast
qed

section \<open>Properties of the discovery\<close>

lemma files_nonempty:
  "ns \<in> set (regular_below e) \<Longrightarrow> ns \<noteq> []"
  "ms \<in> set (regular_in es) \<Longrightarrow> ms \<noteq> []"
  by (induction e and es arbitrary: ns and ms rule: regular_below_regular_in.induct) auto

lemma listed_Cons: "ns \<noteq> [] \<Longrightarrow> listed (n # ns) = (\<not> pruned n \<and> listed ns)"
  by (auto simp: listed_def)

lemma listed_single: "listed [n] = is_markdown n"
  by (simp add: listed_def)

lemma filter_listed_Cons:
  "\<forall>ns \<in> set xs. ns \<noteq> [] \<Longrightarrow>
   filter listed (map ((#) n) xs) = (if pruned n then [] else map ((#) n) (filter listed xs))"
  by (induction xs) (auto simp: listed_Cons)

lemma filter_listed_below:
  "filter listed (map ((#) n) (regular_in es)) =
     (if pruned n then [] else map ((#) n) (filter listed (regular_in es)))"
  using files_nonempty(2) by (intro filter_listed_Cons) blast

lemma foldl_below: "map (foldl f d) (map ((#) n) xs) = map (foldl f (f d n)) xs"
  by simp

lemma walk_mset:
  "\<And>n es. e = Directory n es \<Longrightarrow> readable_all es \<Longrightarrow>
     \<exists>r. findMarkdownFiles H dir e = Inr r \<and>
         mset r = mset (map (foldl (path_join H) dir) (filter listed (regular_in es)))"
  "readable_all es \<Longrightarrow>
     \<exists>r. walk H dir es = Inr r \<and>
         mset r = mset (map (foldl (path_join H) dir) (filter listed (regular_in es)))"
proof (induction H dir e and H dir es rule: findMarkdownFiles_walk.induct)
  case (1 H dir n entries)
  then show ?case by auto
next
  case (2 H dir n)
  then show ?case by simp
next
  case (3 H dir n)
  then show ?case by simp
next
  case (4 H dir n)
  then show ?case by simp
next
  case (5 H dir)
  then show ?case by simp
next
  case (6 H dir entry entries)
  show ?case
  proof (cases entry)
    case (File n)
    then show ?thesis using 6 by (auto simp: Let_def listed_single is_markdown_def)
  next
    case (Directory n sub)
    from "6.prems" Directory have rs: "readable_all entries" and rsub: "pruned n \<or> readable_all sub"
      by simp_all
    show ?thesis
    proof (cases "pruned n")
      case True
      then show ?thesis using 6 Directory
        by (auto simp: Let_def filter_listed_below pruned_def)
    next
      case False
      with rsub have sub: "readable_all sub" by simp
      from False Directory
      have cond: "isDirectory entry \<and> \<not> startsWith (name entry) ''.'' \<and> name entry \<noteq> ''node_modules''"
        by (simp add: pruned_def)
      from "6.IH"(1) [OF refl cond Directory sub]
      obtain found where f: "findMarkdownFiles H (path_join H dir (name entry)) entry = Inr found"
        and fm: "mset found =
          mset (map (foldl (path_join H) (path_join H dir (name entry))) (filter listed (regular_in sub)))"
        by blast
      from "6.IH"(2) [OF refl cond f rs]
      obtain rest where r: "walk H dir entries = Inr rest"
        and rm: "mset rest = mset (map (foldl (path_join H) dir) (filter listed (regular_in entries)))"
        by blast
      have w: "walk H dir (entry # entries) = Inr (found @ rest)"
        using cond f r by (simp add: Let_def)
      have "map (foldl (path_join H) dir) (filter listed (regular_in (entry # entries))) =
          map (foldl (path_join H) (path_join H dir n)) (filter listed (regular_in sub))
          @ map (foldl (path_join H) dir) (filter listed (regular_in entries))"
        using False Directory by (simp add: filter_listed_below o_def)
      then show ?thesis using w fm rm Directory by simp
    qed
  next
    case (Locked n)
    then show ?thesis using 6 by (auto simp: Let_def pruned_def)
  next
    case (Other n)
    then show ?thesis using 6 by (auto simp: Let_def)
  qed
qed

text \<open>
  The only exception that the walk raises is the one of a listing, and it raises one as
  soon as a directory outside the pruned subtrees cannot be listed.
\<close>

lemma walk_errors:
  "findMarkdownFiles H dir e = Inl x \<Longrightarrow> \<exists>p. x = ReaddirError p"
  "walk H dir es = Inl x \<Longrightarrow> \<exists>p. x = ReaddirError p"
proof (induction H dir e and H dir es arbitrary: x and x rule: findMarkdownFiles_walk.induct)
  case (1 H dir n entries)
  then show ?case by (auto split: sum.splits)
next
  case (2 H dir n)
  then show ?case by auto
next
  case (3 H dir n)
  then show ?case by auto
next
  case (4 H dir n)
  then show ?case by auto
next
  case (5 H dir)
  then show ?case by simp
next
  case (6 H dir entry entries)
  let ?full = "path_join H dir (name entry)"
  show ?case
  proof (cases "isDirectory entry \<and> \<not> startsWith (name entry) ''.'' \<and> name entry \<noteq> ''node_modules''")
    case c: True
    show ?thesis
    proof (cases "findMarkdownFiles H ?full entry")
      case (Inl e)
      with c "6.prems" have "x = e" by (simp add: Let_def)
      then show ?thesis using "6.IH"(1) [OF refl c Inl] by simp
    next
      case (Inr found)
      with c "6.prems" have "\<exists>y. walk H dir entries = Inl y \<and> x = y"
        by (auto simp: Let_def split: sum.splits)
      then show ?thesis using "6.IH"(2) [OF refl c Inr] by blast
    qed
  next
    case c: False
    show ?thesis
    proof (cases "isFile entry \<and> (endsWith (name entry) ''.md'' \<or> endsWith (name entry) ''.markdown'')")
      case True
      with c "6.prems" have "walk H dir entries = Inl x"
        by (auto simp: Let_def split: sum.splits)
      then show ?thesis using "6.IH"(3) [OF refl c True] by blast
    next
      case False
      with c "6.prems" have "walk H dir entries = Inl x"
        by (auto simp: Let_def split: sum.splits)
      then show ?thesis using "6.IH"(4) [OF refl c False] by blast
    qed
  qed
qed

lemma walk_fails:
  "\<And>n es. e = Directory n es \<Longrightarrow> \<not> readable_all es \<Longrightarrow> \<exists>x. findMarkdownFiles H dir e = Inl x"
  "\<not> readable_all es \<Longrightarrow> \<exists>x. walk H dir es = Inl x"
proof (induction H dir e and H dir es rule: findMarkdownFiles_walk.induct)
  case (1 H dir n entries)
  then show ?case by auto
next
  case (2 H dir n)
  then show ?case by simp
next
  case (3 H dir n)
  then show ?case by simp
next
  case (4 H dir n)
  then show ?case by simp
next
  case (5 H dir)
  then show ?case by simp
next
  case (6 H dir entry entries)
  let ?full = "path_join H dir (name entry)"
  show ?case
  proof (cases "isDirectory entry \<and> \<not> startsWith (name entry) ''.'' \<and> name entry \<noteq> ''node_modules''")
    case c: True
    show ?thesis
    proof (cases "findMarkdownFiles H ?full entry")
      case (Inl e)
      then show ?thesis using c by (simp add: Let_def)
    next
      case (Inr found)
      have "readable entry"
      proof (cases entry)
        case (Directory n sub)
        show ?thesis
        proof (rule ccontr)
          assume "\<not> readable entry"
          with Directory have "\<not> readable_all sub" by simp
          from "6.IH"(1) [OF refl c Directory this] Inr show False by simp
        qed
      next
        case (Locked n)
        with Inr show ?thesis by simp
      qed simp_all
      with "6.prems" have "\<not> readable_all entries" by simp
      from "6.IH"(2) [OF refl c Inr this] show ?thesis using c Inr by (auto simp: Let_def)
    qed
  next
    case c: False
    then have "readable entry" by (cases entry) (auto simp: pruned_def)
    with "6.prems" have rest: "\<not> readable_all entries" by simp
    show ?thesis
    proof (cases "isFile entry \<and> (endsWith (name entry) ''.md'' \<or> endsWith (name entry) ''.markdown'')")
      case True
      from "6.IH"(3) [OF refl c True rest] show ?thesis using c True by (auto simp: Let_def)
    next
      case False
      from "6.IH"(4) [OF refl c False rest] show ?thesis using c False by (auto simp: Let_def)
    qed
  qed
qed

text \<open>
  C3, as amended. Where every directory outside the pruned subtrees can be listed, the
  files that \<^verbatim>\<open>findMarkdownFiles\<close> returns for a directory are exactly the regular files
  below it whose names end in \<^verbatim>\<open>.md\<close> or \<^verbatim>\<open>.markdown\<close> and that lie in no directory whose
  name starts with a dot or is \<^verbatim>\<open>node_modules\<close>, sorted ascending by full path in the order
  of the code units. Where one of those directories cannot be listed, the call returns
  nothing and raises the exception of the listing. The pruned subtrees are not read: what
  they hold, a directory that cannot be listed included, has no effect. Entries that are
  neither regular files nor directories are never returned.
\<close>

theorem findMarkdownFiles_regular_sorted_pruned:
  "(readable_all entries \<longrightarrow>
      findMarkdownFiles H dir (Directory n entries) = Inr (regular_resolve H dir entries))
   \<and> (\<not> readable_all entries \<longrightarrow>
      (\<exists>p. findMarkdownFiles H dir (Directory n entries) = Inl (ReaddirError p)))
   \<and> sorted (regular_resolve H dir entries)
   \<and> set (regular_resolve H dir entries) =
        {foldl (path_join H) dir ns | ns. ns \<in> set (regular_in entries) \<and> is_markdown (last ns)
           \<and> (\<forall>d \<in> set (butlast ns). \<not> startsWith d ''.'' \<and> d \<noteq> ''node_modules'')}"
proof -
  have ok: "findMarkdownFiles H dir (Directory n entries) = Inr (regular_resolve H dir entries)"
    if r: "readable_all entries"
  proof -
    from walk_mset(2) [OF r, of H dir]
    obtain r where r: "walk H dir entries = Inr r"
      and m: "mset r = mset (map (foldl (path_join H) dir) (filter listed (regular_in entries)))"
      by blast
    have "sort r = regular_resolve H dir entries"
      unfolding regular_resolve_def by (rule properties_for_sort) (simp_all add: m)
    then show ?thesis using r by simp
  qed
  have bad: "\<exists>p. findMarkdownFiles H dir (Directory n entries) = Inl (ReaddirError p)"
    if "\<not> readable_all entries"
  proof -
    from walk_fails(1) [OF refl that, of H dir n]
    obtain x where x: "findMarkdownFiles H dir (Directory n entries) = Inl x" by blast
    from walk_errors(1) [OF x] x show ?thesis by blast
  qed
  have "sorted (regular_resolve H dir entries)"
    by (simp add: regular_resolve_def)
  moreover have "set (regular_resolve H dir entries) =
        {foldl (path_join H) dir ns | ns. ns \<in> set (regular_in entries) \<and> is_markdown (last ns)
           \<and> (\<forall>d \<in> set (butlast ns). \<not> startsWith d ''.'' \<and> d \<noteq> ''node_modules'')}"
    using files_nonempty(2) [of _ entries]
    by (auto simp: regular_resolve_def listed_def pruned_def list_all_iff)
  ultimately show ?thesis using ok bad by blast
qed

lemma tree_files:
  "regular_in tree = [[''b.markdown''], [''c.txt''], [''node_modules'', ''readme.md''],
      [''docs'', ''z.md''], [''.git'', ''notes.md''], [''a.md'']]"
  by (simp add: tree_def)

lemma tree_resolved: "regular_resolve no_color_host ''.'' tree = [''a.md'', ''b.markdown'', ''docs/z.md'']"
  by (simp add: regular_resolve_def tree_files listed_def is_markdown_def endsWith_def pruned_def
      startsWith_def no_color_host_def)

lemma tree_all_files:
  "files_in tree = [[''b.markdown''], [''c.txt''], [''node_modules'', ''readme.md''],
      [''docs'', ''z.md''], [''docs'', ''link.md''], [''.git'', ''notes.md''], [''a.md'']]"
  by (simp add: tree_def)

lemma tree_specified:
  "spec_resolve no_color_host ''.'' tree = [''a.md'', ''b.markdown'', ''docs/link.md'', ''docs/z.md'']"
  by (simp add: spec_resolve_def tree_all_files listed_def is_markdown_def endsWith_def pruned_def
      startsWith_def no_color_host_def)

text \<open>
  The claim as stated fails twice. Below a directory with a subdirectory that cannot be
  listed, the files under it with the two endings are \<^verbatim>\<open>a.md\<close> and \<^verbatim>\<open>zz/b.md\<close>, and the
  call raises an exception instead of returning them. And a link \<^verbatim>\<open>docs/link.md\<close>, which is
  neither a regular file nor a directory for \<^verbatim>\<open>readdirSync\<close>, is a file under the directory
  with the ending \<^verbatim>\<open>.md\<close>, and is not returned.
\<close>

theorem findMarkdownFiles_locked_or_linked_counterexample:
  "findMarkdownFiles no_color_host ''.'' (Directory ''.'' locked_tree) = Inl (ReaddirError ''private'')
   \<and> spec_resolve no_color_host ''.'' locked_tree = [''a.md'', ''zz/b.md'']
   \<and> findMarkdownFiles no_color_host ''.'' (Directory ''.'' tree) =
        Inr [''a.md'', ''b.markdown'', ''docs/z.md'']
   \<and> spec_resolve no_color_host ''.'' tree = [''a.md'', ''b.markdown'', ''docs/link.md'', ''docs/z.md'']"
proof -
  have "findMarkdownFiles no_color_host ''.'' (Directory ''.'' locked_tree) = Inl (ReaddirError ''private'')"
    by (simp add: locked_tree_def endsWith_def startsWith_def no_color_host_def)
  moreover have "spec_resolve no_color_host ''.'' locked_tree = [''a.md'', ''zz/b.md'']"
    by (simp add: spec_resolve_def locked_tree_def listed_def is_markdown_def endsWith_def pruned_def
      startsWith_def no_color_host_def)
  moreover have "findMarkdownFiles no_color_host ''.'' (Directory ''.'' tree) =
        Inr [''a.md'', ''b.markdown'', ''docs/z.md'']"
    by (simp add: tree_def endsWith_def startsWith_def no_color_host_def)
  ultimately show ?thesis using tree_specified by simp
qed

theorem findMarkdownFiles_regular_sorted_pruned_witness:
  "readable_all tree \<and> \<not> readable_all locked_tree
   \<and> findMarkdownFiles no_color_host ''.'' (Directory ''.'' tree) =
       Inr [''a.md'', ''b.markdown'', ''docs/z.md'']
   \<and> (\<exists>p. findMarkdownFiles no_color_host ''.'' (Directory ''.'' locked_tree) = Inl (ReaddirError p))"
proof -
  have h: "readable_all tree" by (simp add: tree_def pruned_def startsWith_def)
  have g: "\<not> readable_all locked_tree" by (simp add: locked_tree_def pruned_def startsWith_def)
  show ?thesis
    using h g findMarkdownFiles_regular_sorted_pruned [of tree no_color_host "''.''" "''.''"] findMarkdownFiles_regular_sorted_pruned [of locked_tree no_color_host "''.''" "''.''"]
    by (simp add: tree_resolved)
qed

section \<open>Properties of the search\<close>

lemma str_includes_empty: "str_includes s [] = True"
  by (cases s) (simp_all add: startsWith_def)

lemma first_match_empty: "ls \<noteq> [] \<Longrightarrow> first_match [] ls i = Some (i, hd ls)"
  by (cases ls) (simp_all add: str_includes_empty)

lemma search_empty_query:
  "map rfile (searchInFiles H rd fs []) = filter (\<lambda>f. rd f \<noteq> None) fs
   \<and> (\<forall>r \<in> set (searchInFiles H rd fs []). line r = 1)"
  by (induction fs) (auto simp: toLowerCase_def first_match_empty split_lines_nonempty)

lemma renderList_fields [simp]:
  "selected (renderList w) = selected w" "searchMode (renderList w) = searchMode w"
  "files (renderList w) = files w" "searchResults (renderList w) = searchResults w"
  "searchQuery (renderList w) = searchQuery w"
  by (simp_all add: renderList_def clear_screen_def Let_def)

lemma startSelector_fields:
  "searchMode (startSelector w) = False" "searchQuery (startSelector w) = []"
  "searchResults (startSelector w) = []" "selected (startSelector w) = 0"
  "rawMode (startSelector w) = True" "paused (startSelector w) = False"
  "listeners (startSelector w) = listeners w + 1" "disk (startSelector w) = disk w"
  "child (startSelector w) = child w" "status (startSelector w) = status w"
  "files (startSelector w) = files w" "denied (startSelector w) = denied w"
  by (simp_all add: startSelector_def renderList_def clear_screen_def Let_def)

lemma showWithLess_query [simp]:
  "searchQuery (showWithLess H c f b sl w) = searchQuery w"
  "searchResults (showWithLess H c f b sl w) = searchResults w"
  by (simp_all add: showWithLess_def Let_def split: option.split)

lemma clear_screen_query [simp]:
  "searchQuery (clear_screen w) = searchQuery w"
  "searchResults (clear_screen w) = searchResults w"
  by (simp_all add: clear_screen_def)

lemma search_key_guard:
  assumes "searchQuery w = [] \<longrightarrow> searchResults w = []"
  shows "searchQuery (search_key H k w) = [] \<longrightarrow> searchResults (search_key H k w) = []"
  using assms by (auto simp: search_key_def Let_def split: option.split)

lemma browse_key_guard:
  assumes "searchQuery w = [] \<longrightarrow> searchResults w = []"
  shows "searchQuery (browse_key H k w) = [] \<longrightarrow> searchResults (browse_key H k w) = []"
  using assms by (simp add: browse_key_def Let_def split: option.split)

lemma inputHandler_guard:
  assumes "searchQuery w = [] \<longrightarrow> searchResults w = []"
  shows "searchQuery (inputHandler H k w) = [] \<longrightarrow> searchResults (inputHandler H k w) = []"
  using search_key_guard [OF assms] browse_key_guard [OF assms] assms
  by (simp add: inputHandler_def)

lemma emit_guard:
  "searchQuery w = [] \<longrightarrow> searchResults w = [] \<Longrightarrow>
   searchQuery (emit H k n w) = [] \<longrightarrow> searchResults (emit H k n w) = []"
proof (induction n arbitrary: w)
  case 0
  then show ?case by simp
next
  case (Suc n)
  show ?case
  proof (cases "status w = Running")
    case True
    then show ?thesis using Suc.IH [OF inputHandler_guard [OF Suc.prems]] by simp
  next
    case False
    then show ?thesis using Suc.prems by simp
  qed
qed

lemma less_close_guard:
  "searchQuery w = [] \<longrightarrow> searchResults w = [] \<Longrightarrow>
   searchQuery (less_close w) = [] \<longrightarrow> searchResults (less_close w) = []"
  by (simp add: less_close_def Let_def startSelector_fields split: option.split)

lemma deliver_guard:
  "searchQuery w = [] \<longrightarrow> searchResults w = [] \<Longrightarrow>
   searchQuery (deliver H ev w) = [] \<longrightarrow> searchResults (deliver H ev w) = []"
  using emit_guard [of w H _ "listeners w"] less_close_guard [of w]
  by (cases ev) (simp_all add: deliver_def)

lemma run_guard:
  "searchQuery w = [] \<longrightarrow> searchResults w = [] \<Longrightarrow>
   searchQuery (run H evs w) = [] \<longrightarrow> searchResults (run H evs w) = []"
proof (induction evs rule: rev_induct)
  case Nil
  then show ?case by (simp add: run_def)
next
  case (snoc ev evs)
  have "run H (evs @ [ev]) w = deliver H ev (run H evs w)" by (simp add: run_def)
  then show ?case using deliver_guard [OF snoc.IH [OF snoc.prems]] by simp
qed

text \<open>
  C1, as amended. Applied to the empty query, \<^verbatim>\<open>searchInFiles\<close> returns one result for
  every file that can be read, at line 1, and not the empty sequence. The browser never
  shows that: its handlers set the results to the empty list whenever the query becomes
  empty, so in every state that the selector reaches through keys and closures of the
  pager, an empty query comes with an empty result list.
\<close>

theorem empty_query_guarded:
  "(searchQuery (run H evs (showFileSelector fs w)) = [] \<longrightarrow>
      searchResults (run H evs (showFileSelector fs w)) = [])
   \<and> map rfile (searchInFiles H rd fs []) = filter (\<lambda>f. rd f \<noteq> None) fs
   \<and> (\<forall>r \<in> set (searchInFiles H rd fs []). line r = 1)"
proof -
  have "searchQuery (showFileSelector fs w) = [] \<longrightarrow> searchResults (showFileSelector fs w) = []"
    by (simp add: showFileSelector_def startSelector_fields)
  from run_guard [OF this] show ?thesis using search_empty_query by blast
qed

text \<open>
  The claim as stated fails: with the two readable documents of the example, the empty
  query yields two results.
\<close>

theorem searchInFiles_empty_query_counterexample:
  "searchInFiles no_color_host (disk browsing) (files browsing) [] =
     [\<lparr>rfile = ''a.md'', basename = ''a.md'', relPath = ''a.md'', line = 1, preview = ''Hello''\<rparr>,
      \<lparr>rfile = ''b.md'', basename = ''b.md'', relPath = ''b.md'', line = 1, preview = ''x''\<rparr>]"
  by (simp add: browsing_def no_color_host_def toLowerCase_def str_includes_empty trim_def is_space_def)

lemma booted_fields:
  "files booted = []" "selected booted = 0" "searchMode booted = False" "searchQuery booted = []"
  "searchResults booted = []" "rawMode booted = False" "paused booted = True"
  "listeners booted = 0" "stdout booted = []" "status booted = Running" "child booted = None"
  "disk booted = [''a.md'' \<mapsto> ''Hello'', ''b.md'' \<mapsto> ''x'' @ [NL] @ ''**y**'']"
  by (simp_all add: booted_def)

lemma found_y:
  "searchInFiles no_color_host (disk booted) [''a.md'', ''b.md'', ''c.md''] ''y'' =
   [\<lparr>rfile = ''b.md'', basename = ''b.md'', relPath = ''b.md'', line = 2, preview = ''**y**''\<rparr>]"
  by (simp add: booted_fields no_color_host_def toLowerCase_def lower_char_def upper_case_def lower_case_def startsWith_def trim_def is_space_def)

text \<open>
  The guard at work: entering search mode, typing \<^verbatim>\<open>y\<close> and deleting it again leaves an
  empty query with no results.
\<close>

theorem empty_query_guarded_witness:
  "searchQuery (run no_color_host [Key ''/'', Key ''y'', Key [CHR 0x7F]]
        (showFileSelector [''a.md'', ''b.md'', ''c.md''] booted)) = []
   \<and> searchMode (run no_color_host [Key ''/'', Key ''y'', Key [CHR 0x7F]]
        (showFileSelector [''a.md'', ''b.md'', ''c.md''] booted))
   \<and> searchResults (run no_color_host [Key ''/'', Key ''y'', Key [CHR 0x7F]]
        (showFileSelector [''a.md'', ''b.md'', ''c.md''] booted)) = []"
proof -
  let ?fs = "[''a.md'', ''b.md'', ''c.md'']"
  define w0 where "w0 = showFileSelector ?fs booted"
  define w1 where "w1 = deliver no_color_host (Key ''/'') w0"
  define w2 where "w2 = deliver no_color_host (Key ''y'') w1"
  define w3 where "w3 = deliver no_color_host (Key [CHR 0x7F]) w2"
  have s0: "status w0 = Running" "\<not> paused w0" "listeners w0 = Suc 0" "\<not> searchMode w0"
    "files w0 = ?fs" "disk w0 = disk booted"
    by (simp_all add: w0_def showFileSelector_def startSelector_def renderList_def clear_screen_def
        booted_fields Let_def)
  have s1: "status w1 = Running" "\<not> paused w1" "listeners w1 = Suc 0" "searchMode w1"
    "files w1 = ?fs" "disk w1 = disk booted" "searchQuery w1 = []"
    using s0 by (simp_all add: w1_def deliver_def inputHandler_def browse_key_def renderList_def
        clear_screen_def Let_def)
  have s2: "status w2 = Running" "\<not> paused w2" "listeners w2 = Suc 0" "searchMode w2"
    "files w2 = ?fs" "disk w2 = disk booted" "searchQuery w2 = ''y''"
    "searchResults w2 = [\<lparr>rfile = ''b.md'', basename = ''b.md'', relPath = ''b.md'', line = 2,
        preview = ''**y**''\<rparr>]"
    using s1 by (simp_all add: w2_def deliver_def inputHandler_def search_key_def renderList_def
        clear_screen_def Let_def key_up_def key_down_def found_y
        del: searchInFiles.simps)
  have s3: "searchMode w3" "searchQuery w3 = []"
    using s2 by (simp_all add: w3_def deliver_def inputHandler_def search_key_def renderList_def
        clear_screen_def Let_def)
  have r: "run no_color_host [Key ''/'', Key ''y'', Key [CHR 0x7F]] (showFileSelector ?fs booted) = w3"
    by (simp add: run_def w3_def w2_def w1_def w0_def)
  show ?thesis
    using s3 empty_query_guarded [of no_color_host "[Key ''/'', Key ''y'', Key [CHR 0x7F]]" ?fs booted "disk booted"]
    by (simp add: r)
qed

section \<open>Properties of the cursor\<close>

lemma wrap_up: "0 \<le> s \<Longrightarrow> s < n \<Longrightarrow> (if s > 0 then s - 1 else n - 1) = (s - 1) mod (n::int)"
  by (auto simp: mod_pos_pos_trivial zmod_minus1)

lemma wrap_down:
  assumes "0 \<le> s" "s < n"
  shows "(if s < n - 1 then s + 1 else 0) = (s + 1) mod (n::int)"
proof (cases "s < n - 1")
  case True
  with assms show ?thesis by (simp add: mod_pos_pos_trivial)
next
  case False
  with assms have "s + 1 = n" by simp
  then show ?thesis using False by simp
qed

lemma search_up: "searchMode w \<Longrightarrow> inputHandler H key_up w =
   renderList (if length (searchResults w) > 0
                    then w\<lparr>selected := (if selected w > 0 then selected w - 1
                                         else int (length (searchResults w)) - 1)\<rparr>
                    else w)"
  by (simp add: inputHandler_def search_key_def key_up_def key_down_def)

lemma search_down: "searchMode w \<Longrightarrow> inputHandler H key_down w =
   renderList (if length (searchResults w) > 0
                    then w\<lparr>selected := (if selected w < int (length (searchResults w)) - 1
                                         then selected w + 1 else 0)\<rparr>
                    else w)"
  by (simp add: inputHandler_def search_key_def key_up_def key_down_def)

lemma browse_up: "\<not> searchMode w \<Longrightarrow> k = key_up \<or> k = ''k'' \<Longrightarrow> inputHandler H k w =
   renderList (w\<lparr>selected := (if selected w > 0 then selected w - 1
                                                     else int (length (files w)) - 1)\<rparr>)"
  by (auto simp add: inputHandler_def browse_key_def Let_def key_up_def key_down_def)

lemma browse_down: "\<not> searchMode w \<Longrightarrow> k = key_down \<or> k = ''j'' \<Longrightarrow> inputHandler H k w =
   renderList (w\<lparr>selected := (if selected w < int (length (files w)) - 1
                                                      then selected w + 1 else 0)\<rparr>)"
  by (auto simp add: inputHandler_def browse_key_def Let_def key_up_def key_down_def)

lemma step_up:
  assumes "is_up w k" "0 \<le> selected w" "selected w < int (activeList_length w)"
  shows "selected (inputHandler H k w) = (selected w - 1) mod int (activeList_length w)
    \<and> searchMode (inputHandler H k w) = searchMode w
    \<and> activeList_length (inputHandler H k w) = activeList_length w"
proof (cases "searchMode w")
  case True
  with assms have k: "k = key_up" and n: "length (searchResults w) > 0" 
    and r: "selected w < int (length (searchResults w))"
    by (auto simp: is_up_def activeList_length_def)
  show ?thesis using True n wrap_up [OF assms(2) r]
    by (simp add: k search_up activeList_length_def)
next
  case False
  with assms have k: "k = key_up \<or> k = ''k''" and r: "selected w < int (length (files w))"
    by (auto simp: is_up_def activeList_length_def)
  show ?thesis using False wrap_up [OF assms(2) r]
    by (simp add: browse_up [OF False k] activeList_length_def)
qed

lemma step_down:
  assumes "is_down w k" "0 \<le> selected w" "selected w < int (activeList_length w)"
  shows "selected (inputHandler H k w) = (selected w + 1) mod int (activeList_length w)
    \<and> searchMode (inputHandler H k w) = searchMode w
    \<and> activeList_length (inputHandler H k w) = activeList_length w"
proof (cases "searchMode w")
  case True
  with assms have k: "k = key_down" and n: "length (searchResults w) > 0" 
    and r: "selected w < int (length (searchResults w))"
    by (auto simp: is_down_def activeList_length_def)
  show ?thesis using True n wrap_down [OF assms(2) r]
    by (simp add: k search_down activeList_length_def)
next
  case False
  with assms have k: "k = key_down \<or> k = ''j''" and r: "selected w < int (length (files w))"
    by (auto simp: is_down_def activeList_length_def)
  show ?thesis using False wrap_down [OF assms(2) r]
    by (simp add: browse_down [OF False k] activeList_length_def)
qed

lemma up_not_down: "is_up w k \<Longrightarrow> \<not> is_down w k"
  by (auto simp: is_up_def is_down_def key_up_def key_down_def)

lemma press_nav:
  assumes "0 \<le> selected w" "selected w < int (activeList_length w)"
    and "\<forall>k \<in> set ks. is_up w k \<or> is_down w k"
  shows "searchMode (press H ks w) = searchMode w
    \<and> activeList_length (press H ks w) = activeList_length w
    \<and> selected (press H ks w) =
        (selected w + int (length (filter (is_down w) ks)) - int (length (filter (is_up w) ks)))
          mod int (activeList_length w)"
  using assms(3)
proof (induction ks rule: rev_induct)
  case Nil
  show ?case using assms(1,2) by (simp add: press_def mod_pos_pos_trivial)
next
  case (snoc k ks)
  let ?w = "press H ks w"
  let ?n = "int (activeList_length w)"
  let ?d = "selected w + int (length (filter (is_down w) ks)) - int (length (filter (is_up w) ks))"
  from snoc have ih: "searchMode ?w = searchMode w" "activeList_length ?w = activeList_length w"
    "selected ?w = ?d mod ?n"
    by simp_all
  from assms(1,2) have npos: "0 < ?n" by simp
  have lo: "0 \<le> selected ?w" and hi: "selected ?w < int (activeList_length ?w)"
    using npos by (simp_all add: ih)
  have step: "press H (ks @ [k]) w = inputHandler H k ?w"
    by (simp add: press_def)
  from snoc.prems have "is_up w k \<or> is_down w k" by simp
  then show ?case
  proof
    assume u: "is_up w k"
    then have u': "is_up ?w k" by (simp add: is_up_def ih)
    from u have nd: "\<not> is_down w k" by (rule up_not_down)
    have "(?d mod ?n - 1) mod ?n = (?d - 1) mod ?n" by (simp add: mod_diff_left_eq)
    then show ?thesis using step_up [OF u' lo hi, of H] u nd
      by (simp add: step ih algebra_simps)
  next
    assume d: "is_down w k"
    then have d': "is_down ?w k" by (simp add: is_down_def ih)
    from d have nu: "\<not> is_up w k" using up_not_down by blast
    have "(?d mod ?n + 1) mod ?n = (?d + 1) mod ?n" by (simp add: mod_add_left_eq)
    then show ?thesis using step_down [OF d' lo hi, of H] d nu
      by (simp add: step ih algebra_simps)
  qed
qed

text \<open>
  C6. From a cursor within a list of length \<open>N\<close>, any sequence of up and down keys leaves
  the cursor within \<open>[0, N)\<close>, in the mode it started in: each up key moves it to
  \<open>(cursor - 1) mod N\<close> and each down key to \<open>(cursor + 1) mod N\<close>, in the file list as
  in the search results.
\<close>

theorem cursor_wraps_within_list:
  assumes "0 \<le> selected w" "selected w < int (activeList_length w)"
    and "\<forall>k \<in> set ks. is_up w k \<or> is_down w k"
  shows "0 \<le> selected (press H ks w) \<and> selected (press H ks w) < int (activeList_length w)
    \<and> searchMode (press H ks w) = searchMode w
    \<and> activeList_length (press H ks w) = activeList_length w
    \<and> selected (press H ks w) =
        (selected w + int (length (filter (is_down w) ks)) - int (length (filter (is_up w) ks)))
          mod int (activeList_length w)
    \<and> (\<forall>k. is_up w k \<longrightarrow>
          selected (inputHandler H k w) = (selected w - 1) mod int (activeList_length w))
    \<and> (\<forall>k. is_down w k \<longrightarrow>
          selected (inputHandler H k w) = (selected w + 1) mod int (activeList_length w))"
proof -
  from assms(1,2) have npos: "0 < int (activeList_length w)" by simp
  note nav = press_nav [OF assms, of H]
  have "0 \<le> selected (press H ks w)" "selected (press H ks w) < int (activeList_length w)"
    using npos by (simp_all add: nav)
  moreover have "\<forall>k. is_up w k \<longrightarrow>
          selected (inputHandler H k w) = (selected w - 1) mod int (activeList_length w)"
    using step_up [OF _ assms(1,2)] by blast
  moreover have "\<forall>k. is_down w k \<longrightarrow>
          selected (inputHandler H k w) = (selected w + 1) mod int (activeList_length w)"
    using step_down [OF _ assms(1,2)] by blast
  ultimately show ?thesis using nav by blast
qed

theorem cursor_wraps_within_list_witness:
  "0 \<le> selected browsing \<and> selected browsing < int (activeList_length browsing)
   \<and> is_up browsing key_up \<and> is_down browsing ''j'' \<and> is_up browsing ''k''
   \<and> selected (press no_color_host [key_up, ''j'', key_up, ''k''] browsing) = 1
   \<and> selected (inputHandler no_color_host key_up browsing) = 2"
proof -
  have h1: "0 \<le> selected browsing" by (simp add: browsing_def)
  have h2: "selected browsing < int (activeList_length browsing)"
    by (simp add: browsing_def activeList_length_def)
  have h3: "\<forall>k \<in> set [key_up, ''j'', key_up, ''k'']. is_up browsing k \<or> is_down browsing k"
    by (simp add: is_up_def is_down_def browsing_def)
  have u: "is_up browsing key_up" "is_up browsing ''k''" "is_down browsing ''j''"
    "\<not> is_down browsing key_up" "\<not> is_down browsing ''k''" "\<not> is_up browsing ''j''"
    by (simp_all add: is_up_def is_down_def browsing_def key_up_def key_down_def)
  have n: "activeList_length browsing = 3" "selected browsing = 0"
    by (simp_all add: browsing_def activeList_length_def)
  show ?thesis
    using h1 h2 cursor_wraps_within_list [OF h1 h2 h3, of no_color_host] u by (simp add: n)
qed

section \<open>Properties of the hand-over to the pager\<close>



text \<open>
  In search mode with results, the cursor of every state that the selector reaches
  selects one of them.
\<close>

lemma showWithLess_cursor [simp]:
  "selected (showWithLess H c f b sl w) = selected w"
  "searchMode (showWithLess H c f b sl w) = searchMode w"
  by (simp_all add: showWithLess_def Let_def split: option.split)

lemma clear_screen_cursor [simp]:
  "selected (clear_screen w) = selected w" "searchMode (clear_screen w) = searchMode w"
  by (simp_all add: clear_screen_def)

lemma search_key_cursor:
  assumes "searchResults w \<noteq> [] \<longrightarrow> 0 \<le> selected w \<and> selected w < int (length (searchResults w))"
  shows "searchMode (search_key H k w) \<longrightarrow> searchResults (search_key H k w) \<noteq> [] \<longrightarrow>
     0 \<le> selected (search_key H k w)
     \<and> selected (search_key H k w) < int (length (searchResults (search_key H k w)))"
  using assms by (auto simp: search_key_def Let_def split: option.split)

lemma browse_key_cursor:
  assumes "\<not> searchMode w"
  shows "searchMode (browse_key H k w) \<longrightarrow> searchResults (browse_key H k w) = []"
  using assms by (simp add: browse_key_def Let_def split: option.split)

lemma inputHandler_cursor:
  assumes "searchMode w \<longrightarrow> searchResults w \<noteq> [] \<longrightarrow>
     0 \<le> selected w \<and> selected w < int (length (searchResults w))"
  shows "searchMode (inputHandler H k w) \<longrightarrow> searchResults (inputHandler H k w) \<noteq> [] \<longrightarrow>
     0 \<le> selected (inputHandler H k w)
     \<and> selected (inputHandler H k w) < int (length (searchResults (inputHandler H k w)))"
proof (cases "searchMode w")
  case True
  then show ?thesis using search_key_cursor [of w H k] assms
    by (simp add: inputHandler_def clear_screen_def)
next
  case False
  then show ?thesis using browse_key_cursor [OF False, of H k]
    by (simp add: inputHandler_def clear_screen_def)
qed

lemma emit_cursor:
  "searchMode w \<longrightarrow> searchResults w \<noteq> [] \<longrightarrow>
     0 \<le> selected w \<and> selected w < int (length (searchResults w)) \<Longrightarrow>
   searchMode (emit H k n w) \<longrightarrow> searchResults (emit H k n w) \<noteq> [] \<longrightarrow>
     0 \<le> selected (emit H k n w) \<and> selected (emit H k n w) < int (length (searchResults (emit H k n w)))"
proof (induction n arbitrary: w)
  case 0
  then show ?case by simp
next
  case (Suc n)
  show ?case
  proof (cases "status w = Running")
    case True
    then show ?thesis using Suc.IH [OF inputHandler_cursor [OF Suc.prems]] by simp
  next
    case False
    then show ?thesis using Suc.prems by simp
  qed
qed

lemma less_close_cursor:
  "searchMode w \<longrightarrow> searchResults w \<noteq> [] \<longrightarrow>
     0 \<le> selected w \<and> selected w < int (length (searchResults w)) \<Longrightarrow>
   searchMode (less_close w) \<longrightarrow> searchResults (less_close w) \<noteq> [] \<longrightarrow>
     0 \<le> selected (less_close w) \<and> selected (less_close w) < int (length (searchResults (less_close w)))"
  by (simp add: less_close_def Let_def startSelector_fields split: option.split)

lemma deliver_cursor:
  assumes "searchMode w \<longrightarrow> searchResults w \<noteq> [] \<longrightarrow>
     0 \<le> selected w \<and> selected w < int (length (searchResults w))"
  shows "searchMode (deliver H ev w) \<longrightarrow> searchResults (deliver H ev w) \<noteq> [] \<longrightarrow>
     0 \<le> selected (deliver H ev w)
     \<and> selected (deliver H ev w) < int (length (searchResults (deliver H ev w)))"
proof (cases ev)
  case (Key k)
  then show ?thesis using emit_cursor [OF assms, of H k "listeners w"] assms
    by (simp add: deliver_def)
next
  case ViewerClosed
  then show ?thesis using less_close_cursor [OF assms] assms
    by (simp add: deliver_def)
qed

lemma run_cursor:
  "searchMode w \<longrightarrow> searchResults w \<noteq> [] \<longrightarrow>
     0 \<le> selected w \<and> selected w < int (length (searchResults w)) \<Longrightarrow>
   searchMode (run H evs w) \<longrightarrow> searchResults (run H evs w) \<noteq> [] \<longrightarrow>
     0 \<le> selected (run H evs w) \<and> selected (run H evs w) < int (length (searchResults (run H evs w)))"
proof (induction evs rule: rev_induct)
  case Nil
  then show ?case by (simp add: run_def)
next
  case (snoc ev evs)
  have "run H (evs @ [ev]) w = deliver H ev (run H evs w)" by (simp add: run_def)
  then show ?case using deliver_cursor [OF snoc.IH [OF snoc.prems], of H ev] by simp
qed

lemma cursor_on_result:
  assumes "w = run H evs (showFileSelector fs w0)" "searchMode w" "searchResults w \<noteq> []"
  shows "js_index (searchResults w) (selected w) = Some (searchResults w ! nat (selected w))"
proof -
  have "searchMode (showFileSelector fs w0) \<longrightarrow> searchResults (showFileSelector fs w0) \<noteq> [] \<longrightarrow>
     0 \<le> selected (showFileSelector fs w0)
     \<and> selected (showFileSelector fs w0) < int (length (searchResults (showFileSelector fs w0)))"
    by (simp add: showFileSelector_def startSelector_fields)
  from run_cursor [OF this, of H evs] assms show ?thesis
    by (simp add: js_index_def)
qed




text \<open>
  C8, as amended. When the pager ends, the listener first deletes the artifact. If that
  succeeds, the file is gone and the continuation runs, or the process exits with status
  0 where there is none. If the deletion fails, the exception is not caught: neither the
  continuation nor the exit runs.
\<close>

theorem less_close_unlink_then_continue:
  assumes "child w = Some v"
  shows "(disk w (tmpFile v) \<noteq> None \<and> \<not> denied w (tmpFile v) \<longrightarrow>
            disk (less_close w) (tmpFile v) = None
          \<and> less_close w =
              (if onClose v
               then startSelector (w\<lparr>child := None, disk := (disk w)(tmpFile v := None)\<rparr>)
               else w\<lparr>child := None, disk := (disk w)(tmpFile v := None), status := Exited 0\<rparr>))
     \<and> (disk w (tmpFile v) = None \<or> denied w (tmpFile v) \<longrightarrow>
            less_close w = w\<lparr>child := None, status := Uncaught (UnlinkError (tmpFile v))\<rparr>)"
  using assms by (auto simp: less_close_def Let_def startSelector_fields)

text \<open>
  The claim as stated fails: when the artifact may not be deleted, the process ends with
  an uncaught exception, the selector is not started again and the terminal stays out of
  raw mode.
\<close>

theorem unlink_failure_aborts_counterexample:
  "status (less_close viewing) = Uncaught (UnlinkError ''/tmp/mdview-0.txt'')
   \<and> listeners (less_close viewing) = 0 \<and> \<not> rawMode (less_close viewing)
   \<and> less_close viewing \<noteq> startSelector (viewing\<lparr>child := None\<rparr>)"
proof -
  have "status (less_close viewing) = Uncaught (UnlinkError ''/tmp/mdview-0.txt'')"
    "listeners (less_close viewing) = 0" "\<not> rawMode (less_close viewing)"
    by (simp_all add: less_close_def viewing_def browsing_def Let_def)
  moreover from this(2) have "less_close viewing \<noteq> startSelector (viewing\<lparr>child := None\<rparr>)"
    by (auto simp: startSelector_fields dest: arg_cong [where f = listeners])
  ultimately show ?thesis by simp
qed

theorem less_close_unlink_then_continue_witness:
  "child viewing = Some \<lparr>lessArgs = [''-R'', ''/tmp/mdview-0.txt''], tmpFile = ''/tmp/mdview-0.txt'', onClose = True\<rparr>
   \<and> denied viewing ''/tmp/mdview-0.txt''
   \<and> less_close viewing = viewing\<lparr>child := None, status := Uncaught (UnlinkError ''/tmp/mdview-0.txt'')\<rparr>
   \<and> child (viewing\<lparr>denied := (\<lambda>p. False)\<rparr>) = Some \<lparr>lessArgs = [''-R'', ''/tmp/mdview-0.txt''], tmpFile = ''/tmp/mdview-0.txt'', onClose = True\<rparr>
   \<and> disk (less_close (viewing\<lparr>denied := (\<lambda>p. False)\<rparr>)) ''/tmp/mdview-0.txt'' = None"
proof -
  let ?v = "\<lparr>lessArgs = [''-R'', ''/tmp/mdview-0.txt''], tmpFile = ''/tmp/mdview-0.txt'', onClose = True\<rparr>"
  have h: "child viewing = Some ?v" by (simp add: viewing_def)
  have d: "denied viewing ''/tmp/mdview-0.txt''" by (simp add: viewing_def)
  have h': "child (viewing\<lparr>denied := (\<lambda>p. False)\<rparr>) = Some ?v" by (simp add: viewing_def)
  have e: "disk (viewing\<lparr>denied := (\<lambda>p. False)\<rparr>) ''/tmp/mdview-0.txt'' \<noteq> None" 
    "\<not> denied (viewing\<lparr>denied := (\<lambda>p. False)\<rparr>) ''/tmp/mdview-0.txt''" by (simp_all add: viewing_def)
  show ?thesis using h d h' e less_close_unlink_then_continue [OF h] less_close_unlink_then_continue [OF h'] by (simp add: startSelector_fields)
qed

section \<open>Properties of the transitions\<close>

lemma browse_enter_unreadable:
  assumes "\<not> searchMode w" "key = [CR] \<or> key = [NL]"
    and "js_index (files w) (selected w) = Some f" and "disk w f = None"
  shows "inputHandler H key w =
     w\<lparr>rawMode := False, paused := True, listeners := 0, stdout := stdout w @ [ClearScreen],
       status := Uncaught (ReadError f)\<rparr>"
  using assms by (auto simp: inputHandler_def browse_key_def clear_screen_def Let_def)

lemma search_enter_unreadable:
  assumes "searchMode w" "key = [CR] \<or> key = [NL]"
    and "js_index (searchResults w) (selected w) = Some r" and "disk w (rfile r) = None"
  shows "inputHandler H key w =
     w\<lparr>rawMode := False, paused := True, listeners := 0, stdout := stdout w @ [ClearScreen],
       status := Uncaught (ReadError (rfile r))\<rparr>"
proof -
  from assms(3) have "searchResults w \<noteq> []" by (auto simp: js_index_def split: if_splits)
  then show ?thesis using assms
    by (auto simp: inputHandler_def search_key_def clear_screen_def Let_def)
qed

text \<open>
  C9, as amended. When the file under the cursor cannot be read, Enter in either mode
  ends the process with an uncaught exception, after the terminal has left raw mode, the
  input has been paused and the listener removed; mode, cursor, query and results are
  left as they were and no pager is started.
\<close>

theorem enter_unreadable_is_uncaught:
  assumes "key = [CR] \<or> key = [NL]"
    and "js_index (if searchMode w then map rfile (searchResults w) else files w) (selected w) = Some f"
    and "disk w f = None"
  shows "inputHandler H key w =
     w\<lparr>rawMode := False, paused := True, listeners := 0, stdout := stdout w @ [ClearScreen],
       status := Uncaught (ReadError f)\<rparr>"
proof (cases "searchMode w")
  case True
  with assms(2) obtain r where "js_index (searchResults w) (selected w) = Some r" "rfile r = f"
    by (auto simp: js_index_def split: if_splits)
  then show ?thesis using search_enter_unreadable [OF True assms(1), of r H] assms(3) by simp
next
  case False
  then show ?thesis using browse_enter_unreadable [OF False assms(1), of f H] assms(2,3) by simp
qed

text \<open>
  The claim as stated fails: opening the unreadable third document ends the process.
\<close>

theorem enter_unreadable_crashes_counterexample:
  "status (inputHandler no_color_host [CR] (browsing\<lparr>selected := 2\<rparr>)) = Uncaught (ReadError ''c.md'')
   \<and> \<not> rawMode (inputHandler no_color_host [CR] (browsing\<lparr>selected := 2\<rparr>))
   \<and> listeners (inputHandler no_color_host [CR] (browsing\<lparr>selected := 2\<rparr>)) = 0"
  by (simp add: inputHandler_def browse_key_def browsing_def js_index_def clear_screen_def Let_def)

theorem enter_unreadable_is_uncaught_witness:
  "js_index (if searchMode (browsing\<lparr>selected := 2\<rparr>) then map rfile (searchResults (browsing\<lparr>selected := 2\<rparr>)) else files (browsing\<lparr>selected := 2\<rparr>)) (selected (browsing\<lparr>selected := 2\<rparr>)) = Some ''c.md''
   \<and> disk (browsing\<lparr>selected := 2\<rparr>) ''c.md'' = None
   \<and> inputHandler no_color_host [NL] (browsing\<lparr>selected := 2\<rparr>) =
       browsing\<lparr>selected := 2, rawMode := False, paused := True, listeners := 0, stdout := [ClearScreen],
       status := Uncaught (ReadError ''c.md'')\<rparr>"
proof -
  let ?w = "browsing\<lparr>selected := 2\<rparr>"
  have h1: "[NL] = [CR] \<or> [NL] = [NL]" by simp
  have h2: "js_index (if searchMode ?w then map rfile (searchResults ?w) else files ?w) (selected ?w) = Some ''c.md''"
    by (simp add: browsing_def js_index_def)
  have h3: "disk ?w ''c.md'' = None" by (simp add: browsing_def)
  show ?thesis using h2 h3 enter_unreadable_is_uncaught [OF h1 h2 h3, of no_color_host] by (simp add: browsing_def)
qed

text \<open>
  C10. Enter in search mode with no results changes nothing: mode, cursor, query,
  results, raw mode, screen and disk stay as they are, and no pager is started.
\<close>

theorem search_enter_without_results_noop:
  assumes "searchMode w" "searchResults w = []" "key = [CR] \<or> key = [NL]"
  shows "inputHandler H key w = w"
  using assms by (auto simp: inputHandler_def search_key_def)

theorem search_enter_without_results_noop_witness:
  "searchMode (searching\<lparr>searchResults := []\<rparr>) \<and> searchResults (searching\<lparr>searchResults := []\<rparr>) = []
   \<and> inputHandler no_color_host [CR] (searching\<lparr>searchResults := []\<rparr>) = searching\<lparr>searchResults := []\<rparr>"
proof -
  have h1: "searchMode (searching\<lparr>searchResults := []\<rparr>)" by (simp add: searching_def)
  have h2: "searchResults (searching\<lparr>searchResults := []\<rparr>) = []" by simp
  have h3: "[CR] = [CR] \<or> [CR] = [NL]" by simp
  show ?thesis using h1 h2 search_enter_without_results_noop [OF h1 h2 h3, of no_color_host] by simp
qed

end
